theory Spec2Isabelle
  imports Main
begin

section \<open>JavaScript strings\<close>

text \<open>
  The scripts work on JavaScript strings: sequences of UTF-16 code units. A string is
  modelled as the list of its code units, each a natural number; \<open>js\<close> turns an ASCII
  literal into such a list. \<open>length\<close>, \<open>slice\<close> and the regular expressions of
  the source count and match code units, and so does the model.
\<close>

type_synonym jstr = "nat list"

definition js :: "string \<Rightarrow> jstr" where
  "js s = map of_char s"

definition js_lines :: "jstr list \<Rightarrow> jstr" where
  "js_lines ls = concat (map (\<lambda>l. l @ [10]) ls)"

text \<open>ECMAScript \<open>LineTerminator\<close>: LF, CR, LS, PS.\<close>

definition is_line_terminator :: "nat \<Rightarrow> bool" where
  "is_line_terminator c = (c = 10 \<or> c = 13 \<or> c = 8232 \<or> c = 8233)"

text \<open>ECMAScript \<open>WhiteSpace\<close>: TAB, VT, FF, ZWNBSP and the space separators.\<close>

definition is_white_space :: "nat \<Rightarrow> bool" where
  "is_white_space c = (c = 9 \<or> c = 11 \<or> c = 12 \<or> c = 32 \<or> c = 160 \<or> c = 5760
     \<or> (8192 \<le> c \<and> c \<le> 8202) \<or> c = 8239 \<or> c = 8287 \<or> c = 12288 \<or> c = 65279)"

text \<open>The class \<open>\s\<close> of a regular expression, and what \<open>trim\<close> and \<open>trimEnd\<close> strip.\<close>

definition is_space :: "nat \<Rightarrow> bool" where
  "is_space c = (is_white_space c \<or> is_line_terminator c)"

definition trimStart :: "jstr \<Rightarrow> jstr" where
  "trimStart s = dropWhile is_space s"

definition trimEnd :: "jstr \<Rightarrow> jstr" where
  "trimEnd s = rev (dropWhile is_space (rev s))"

definition trim :: "jstr \<Rightarrow> jstr" where
  "trim s = trimEnd (trimStart s)"

text \<open>\<open>String.prototype.includes\<close>: the needle occurs at some position.\<close>

fun js_includes :: "jstr \<Rightarrow> jstr \<Rightarrow> bool" where
  "js_includes [] sub = (sub = [])"
| "js_includes (c # cs) sub = (take (length sub) (c # cs) = sub \<or> js_includes cs sub)"

text \<open>The number of positions at which the needle occurs.\<close>

fun occurrences :: "jstr \<Rightarrow> jstr \<Rightarrow> nat" where
  "occurrences [] sub = (if sub = [] then 1 else 0)"
| "occurrences (c # cs) sub =
     (if take (length sub) (c # cs) = sub then 1 else 0) + occurrences cs sub"

section \<open>Regular expressions\<close>

text \<open>
  The fragment of ECMAScript regular expressions that the source uses, with the
  backtracking order of the language: \<open>rx_run r s\<close> lists the states in which a match
  of \<open>r\<close> started in state \<open>s\<close> can end, in the order in which the backtracking
  matcher tries them. A state holds the input before the current position (reversed),
  the input from the current position on, and the captures.

  \<open>Bol\<close> is \<open>^\<close> under the flag \<open>m\<close>; \<open>Chr P\<close> is one code unit of a class;
  \<open>Star True r\<close> is the greedy \<open>r*\<close> and \<open>Star False r\<close> the lazy \<open>r*?\<close>, both
  refusing an iteration that consumes nothing; \<open>Grp n r\<close> is the capturing group
  number \<open>n\<close>.
\<close>

datatype rx = Eps | Bol | Chr "nat \<Rightarrow> bool" | Seq rx rx | Alt rx rx | Star bool rx | Grp nat rx

type_synonym rx_state = "jstr \<times> jstr \<times> (nat \<rightharpoonup> jstr)"

function (sequential) rx_run :: "rx \<Rightarrow> rx_state \<Rightarrow> rx_state list" where
  "rx_run Eps s = [s]"
| "rx_run Bol (b, r, g) =
     (case b of [] \<Rightarrow> [(b, r, g)]
      | c # _ \<Rightarrow> if is_line_terminator c then [(b, r, g)] else [])"
| "rx_run (Chr P) (b, [], g) = []"
| "rx_run (Chr P) (b, c # cs, g) = (if P c then [(c # b, cs, g)] else [])"
| "rx_run (Seq r1 r2) s = concat (map (rx_run r2) (rx_run r1 s))"
| "rx_run (Alt r1 r2) s = rx_run r1 s @ rx_run r2 s"
| "rx_run (Star greedy r) s =
     (let more = concat (map (rx_run (Star greedy r))
                   (filter (\<lambda>s'. length (fst (snd s')) < length (fst (snd s))) (rx_run r s)))
      in if greedy then more @ [s] else s # more)"
| "rx_run (Grp n r) (b, rs, g) =
     map (\<lambda>(b', rs', g'). (b', rs', g'(n \<mapsto> take (length rs - length rs') rs)))
       (rx_run r (b, rs, g))"
  by pat_completeness auto
termination
  by (relation "measures [\<lambda>(r, s). size r, \<lambda>(r, s). length (fst (snd s))]") auto

text \<open>A literal string, \<open>r+\<close> and \<open>r?\<close>.\<close>

fun lit :: "jstr \<Rightarrow> rx" where
  "lit [] = Eps"
| "lit (c # cs) = Seq (Chr (\<lambda>x. x = c)) (lit cs)"

definition Plus :: "rx \<Rightarrow> rx" where
  "Plus r = Seq r (Star True r)"

definition Opt :: "rx \<Rightarrow> rx" where
  "Opt r = Alt r Eps"

fun seqs :: "rx list \<Rightarrow> rx" where
  "seqs [] = Eps"
| "seqs [r] = r"
| "seqs (r # rs) = Seq r (seqs rs)"

text \<open>
  The result of \<open>RegExp.prototype.exec\<close> for a regular expression without the flags
  \<open>g\<close> and \<open>y\<close>: the match at the leftmost position that has one.
\<close>

record rx_match =
  m_index :: nat
  m_text :: jstr
  m_groups :: "nat \<rightharpoonup> jstr"

fun rx_scan :: "rx \<Rightarrow> jstr \<Rightarrow> jstr \<Rightarrow> rx_match option" where
  "rx_scan r b rest =
     (case rx_run r (b, rest, Map.empty) of
        (b', rest', g) # _ \<Rightarrow>
          Some \<lparr>m_index = length b, m_text = take (length rest - length rest') rest, m_groups = g\<rparr>
      | [] \<Rightarrow> (case rest of [] \<Rightarrow> None | c # cs \<Rightarrow> rx_scan r (c # b) cs))"

definition rx_exec :: "rx \<Rightarrow> jstr \<Rightarrow> rx_match option" where
  "rx_exec r s = rx_scan r [] s"

definition rx_test :: "rx \<Rightarrow> jstr \<Rightarrow> bool" where
  "rx_test r s = (rx_exec r s \<noteq> None)"

text \<open>The number of capturing groups of a regular expression.\<close>

fun rx_ngroups :: "rx \<Rightarrow> nat" where
  "rx_ngroups (Grp n r) = max n (rx_ngroups r)"
| "rx_ngroups (Seq r1 r2) = max (rx_ngroups r1) (rx_ngroups r2)"
| "rx_ngroups (Alt r1 r2) = max (rx_ngroups r1) (rx_ngroups r2)"
| "rx_ngroups (Star g r) = rx_ngroups r"
| "rx_ngroups _ = 0"

text \<open>
  \<open>GetSubstitution\<close> of ECMAScript, for a regular expression without named groups:
  the replacement text of \<open>String.prototype.replace\<close>, in which \<open>$$\<close> is a dollar
  sign, \<open>$&\<close> the match, \<open>$`\<close> the text before it, \<open>$'\<close> the text after it and
  \<open>$n\<close>, \<open>$nn\<close> a capture; any other dollar sign stands for itself.
\<close>

definition is_digit :: "nat \<Rightarrow> bool" where
  "is_digit c = (48 \<le> c \<and> c \<le> 57)"

definition capture_text :: "(nat \<rightharpoonup> jstr) \<Rightarrow> nat \<Rightarrow> jstr" where
  "capture_text g i = (case g i of None \<Rightarrow> [] | Some t \<Rightarrow> t)"

fun get_substitution :: "jstr \<Rightarrow> jstr \<Rightarrow> nat \<Rightarrow> nat \<Rightarrow> (nat \<rightharpoonup> jstr) \<Rightarrow> jstr \<Rightarrow> jstr" where
  "get_substitution matched str pos ncaps g [] = []"
| "get_substitution matched str pos ncaps g [c] = [c]"
| "get_substitution matched str pos ncaps g (c # d # t) =
     (if c \<noteq> 36 then c # get_substitution matched str pos ncaps g (d # t)
      else if d = 36 then 36 # get_substitution matched str pos ncaps g t
      else if d = 38 then matched @ get_substitution matched str pos ncaps g t
      else if d = 96 then take pos str @ get_substitution matched str pos ncaps g t
      else if d = 39 then drop (pos + length matched) str @ get_substitution matched str pos ncaps g t
      else if is_digit d then
        (case t of
           e # t' \<Rightarrow>
             if is_digit e \<and> 10 * (d - 48) + (e - 48) \<le> ncaps then
               (if 1 \<le> 10 * (d - 48) + (e - 48)
                then capture_text g (10 * (d - 48) + (e - 48)) @ get_substitution matched str pos ncaps g t'
                else [36, d, e] @ get_substitution matched str pos ncaps g t')
             else if 1 \<le> d - 48 \<and> d - 48 \<le> ncaps
               then capture_text g (d - 48) @ get_substitution matched str pos ncaps g t
               else [36, d] @ get_substitution matched str pos ncaps g t
         | [] \<Rightarrow>
             if 1 \<le> d - 48 \<and> d - 48 \<le> ncaps then capture_text g (d - 48) else [36, d])
      else 36 # get_substitution matched str pos ncaps g (d # t))"

text \<open>
  \<open>String.prototype.replace\<close> with a regular expression without the flag \<open>g\<close> and a
  replacement string: the first match is replaced, a string without a match is returned
  as it is.
\<close>

definition js_replace :: "rx \<Rightarrow> jstr \<Rightarrow> jstr \<Rightarrow> jstr" where
  "js_replace r s repl =
     (case rx_exec r s of
        None \<Rightarrow> s
      | Some m \<Rightarrow>
          take (m_index m) s
          @ get_substitution (m_text m) s (m_index m) (rx_ngroups r) (m_groups m) repl
          @ drop (m_index m + length (m_text m)) s)"

section \<open>The fixed texts of the command-line script\<close>

text \<open>The template literals \<open>CSP_POLICY_CODE\<close> and \<open>VITE_CONFIG_SERVER\<close> of \<open>add-csp.js\<close>.\<close>

definition CSP_POLICY_CODE :: jstr where
  \<open>CSP_POLICY_CODE = [10] @ js_lines [
     js ''// ============================================================================'',
     js ''// CONTENT SECURITY POLICY (CSP) CONFIGURATION'',
     js ''// ============================================================================'',
     js ''//'',
     js ''// Debugging CSP errors:'',
     js ''// 1. Open Chrome DevTools '' @ [8594] @ js '' Console'',
     js ''// 2. Look for "Refused to load" or "violates Content Security Policy"'',
     js ''// 3. The error tells you which directive blocked the resource'',
     js ''// 4. Add the source to the appropriate array below'',
     js ''//'',
     js ''// ============================================================================'',
     js '''',
     js ''const CSP_POLICY = {'',
     js ''  // default-src: Fallback for any directive not explicitly set'',
     js ''  // 'self' = Same origin, localhost:* = Any local port, ws: = WebSocket for HMR'',
     js ''  'default-src': ["'self'", 'http://localhost:*', 'ws://localhost:*'],'',
     js '''',
     js ''  // script-src: Controls which scripts can execute'',
     js ''  // Add new CDNs here when you get script-related CSP errors'',
     js ''  'script-src': ['',
     js ''    "'self'",'',
     js ''    "'unsafe-inline'",    // Required for inline scripts, Tailwind JIT'',
     js ''    "'unsafe-eval'",      // Required for some bundlers and libraries'',
     js ''    'http://localhost:*', // Vite dev server'',
     js ''    'https://cdn.tailwindcss.com',  // Tailwind CSS CDN'',
     js ''    'https://cdn.jsdelivr.net',     // Popular CDN for npm packages'',
     js ''  ],'',
     js '''',
     js ''  // style-src: Controls which stylesheets can load'',
     js ''  'style-src': ['',
     js ''    "'self'",'',
     js ''    "'unsafe-inline'",               // Required for Tailwind, inline styles'',
     js ''    'https://fonts.googleapis.com',  // Google Fonts CSS'',
     js ''  ],'',
     js '''',
     js ''  // font-src: Controls which fonts can load'',
     js ''  'font-src': ['',
     js ''    "'self'",'',
     js ''    'https://fonts.gstatic.com',  // Google Fonts files'',
     js ''    'data:',                       // Inline base64 fonts'',
     js ''  ],'',
     js '''',
     js ''  // img-src: Controls which images can load'',
     js ''  'img-src': ['',
     js ''    "'self'",'',
     js ''    'data:',              // Base64 images (favicon, inline SVGs)'',
     js ''    'blob:',              // Generated images, canvas.toBlob()'',
     js ''    'https:',             // Any external HTTPS images'',
     js ''    'http://localhost:*', // Local dev server images'',
     js ''  ],'',
     js '''',
     js ''  // connect-src: Controls fetch(), XHR, WebSocket connections'',
     js ''  // THIS IS WHERE YOU ADD API ENDPOINTS!'',
     js ''  'connect-src': ['',
     js ''    "'self'",'',
     js ''    'http://localhost:*',                        // Local API servers'',
     js ''    'ws://localhost:*',                          // Vite HMR WebSocket'',
     js ''  ],'',
     js '''',
     js ''  // worker-src: Controls Web Workers and Service Workers'',
     js ''  'worker-src': ['',
     js ''    "'self'",'',
     js ''    'blob:',  // Required for libraries like gif.js'',
     js ''  ],'',
     js ''};'',
     js '''',
     js ''// Converts the CSP_POLICY object into a valid CSP header string'',
     js ''const buildCSPString = (policy: Record<string, string[]>): string =>'',
     js ''  Object.entries(policy)'',
     js ''    .map(([directive, sources]) => `${directive} ${sources.join(' ')}`)'',
     js ''    .join('; ');''
   ]\<close>

definition VITE_CONFIG_SERVER :: jstr where
  \<open>VITE_CONFIG_SERVER = [10] @ js_lines [
     js ''  server: {'',
     js ''    headers: {'',
     js ''      'Content-Security-Policy': buildCSPString(CSP_POLICY),'',
     js ''    },''
   ] @ js ''  },''\<close>

section \<open>The fixed texts of the editor extension\<close>

text \<open>The template literals \<open>CSP_POLICY_TEMPLATE\<close> and \<open>SERVER_CONFIG\<close> of \<open>extension.ts\<close>.\<close>

definition CSP_POLICY_TEMPLATE :: jstr where
  \<open>CSP_POLICY_TEMPLATE = [10] @ js_lines [
     js ''// ============================================================================'',
     js ''// CONTENT SECURITY POLICY (CSP) CONFIGURATION'',
     js ''// ============================================================================'',
     js ''//'',
     js ''// Debugging CSP errors:'',
     js ''// 1. Open Chrome DevTools '' @ [8594] @ js '' Console'',
     js ''// 2. Look for "Refused to load" or "violates Content Security Policy"'',
     js ''// 3. The error tells you which directive blocked the resource'',
     js ''// 4. Add the source to the appropriate array below'',
     js ''//'',
     js ''// ============================================================================'',
     js '''',
     js ''const CSP_POLICY = {'',
     js ''  'default-src': ["'self'", 'http://localhost:*', 'ws://localhost:*'],'',
     js ''  'script-src': ["'self'", "'unsafe-inline'", "'unsafe-eval'", 'http://localhost:*', 'https://cdn.tailwindcss.com'],'',
     js ''  'style-src': ["'self'", "'unsafe-inline'", 'https://fonts.googleapis.com'],'',
     js ''  'font-src': ["'self'", 'https://fonts.gstatic.com', 'data:'],'',
     js ''  'img-src': ["'self'", 'data:', 'blob:', 'https:', 'http://localhost:*'],'',
     js ''  'connect-src': ["'self'", 'http://localhost:*', 'ws://localhost:*'],'',
     js ''  'worker-src': ["'self'", 'blob:'],'',
     js ''};'',
     js '''',
     js ''const buildCSPString = (policy: Record<string, string[]>): string =>'',
     js ''  Object.entries(policy)'',
     js ''    .map(([directive, sources]) => `${directive} ${sources.join(' ')}`)'',
     js ''    .join('; ');''
   ]\<close>

definition SERVER_CONFIG :: jstr where
  \<open>SERVER_CONFIG = [10] @ js_lines [
     js ''  server: {'',
     js ''    headers: {'',
     js ''      'Content-Security-Policy': buildCSPString(CSP_POLICY),'',
     js ''    },''
   ] @ js ''  },''\<close>


section \<open>The patching of the text\<close>

text \<open>The marker of \<open>content.includes('CSP_POLICY')\<close>.\<close>

definition marker :: jstr where
  "marker = js ''CSP_POLICY''"

definition isAlreadyPatched :: "jstr \<Rightarrow> bool" where
  "isAlreadyPatched content = js_includes content marker"

text \<open>
  \<^verbatim>\<open>/^(import[\s\S]*?from\s+['"][^'"]+['"];?\s*)+/m\<close>
\<close>

definition is_quote :: "nat \<Rightarrow> bool" where
  "is_quote c = (c = 39 \<or> c = 34)"

definition importStatement :: rx where
  "importStatement = Grp 1 (seqs [
     lit (js ''import''),
     Star False (Chr (\<lambda>c. True)),
     lit (js ''from''),
     Plus (Chr is_space),
     Chr is_quote,
     Plus (Chr (\<lambda>c. \<not> is_quote c)),
     Chr is_quote,
     Opt (Chr (\<lambda>c. c = 59)),
     Star True (Chr is_space)])"

definition importRegex :: rx where
  "importRegex = Seq Bol (Plus importStatement)"

text \<open>
  The insertion of the policy block, in \<open>addCSPConfiguration\<close> of both programs:
  \<^verbatim>\<open>
  const match = content.match(importRegex);
  if (match) {
    const insertPoint = match[0].length;
    newContent = content.slice(0, insertPoint) + '\n' + CSP_POLICY_CODE + '\n'
      + content.slice(insertPoint);
  } else {
    newContent = CSP_POLICY_CODE + '\n' + content;
  }
  \<close>
  The template is a parameter: the script passes \<open>CSP_POLICY_CODE\<close>, the extension
  \<open>CSP_POLICY_TEMPLATE\<close>.
\<close>

definition insertPolicyBlock :: "jstr \<Rightarrow> jstr \<Rightarrow> jstr" where
  "insertPolicyBlock template content =
     (case rx_exec importRegex content of
        Some m \<Rightarrow>
          (let insertPoint = length (m_text m)
           in take insertPoint content @ [10] @ template @ [10] @ drop insertPoint content)
      | None \<Rightarrow> template @ [10] @ content)"

text \<open>
  \<^verbatim>\<open>/export\s+default\s+defineConfig\s*\(\s*\{/\<close>
\<close>

definition configRegex :: rx where
  "configRegex = seqs [
     lit (js ''export''),
     Plus (Chr is_space),
     lit (js ''default''),
     Plus (Chr is_space),
     lit (js ''defineConfig''),
     Star True (Chr is_space),
     Chr (\<lambda>c. c = 40),
     Star True (Chr is_space),
     Chr (\<lambda>c. c = 123)]"

text \<open>
  The insertion of the server headers:
  \<^verbatim>\<open>
  if (configRegex.test(newContent)) {
    newContent = newContent.replace(configRegex, `export default defineConfig({${SERVER}`);
  } else { ... }
  \<close>
  The result says whether the pattern was found.
\<close>

definition insertServerHeaders :: "jstr \<Rightarrow> jstr \<Rightarrow> jstr \<times> bool" where
  "insertServerHeaders server newContent =
     (if rx_test configRegex newContent
      then (js_replace configRegex newContent (js ''export default defineConfig({'' @ server), True)
      else (newContent, False))"

text \<open>
  The six directives that the prompt of the script and the quick pick of the extension
  offer, and their names.
\<close>

datatype directive = ScriptSrc | StyleSrc | FontSrc | ConnectSrc | ImgSrc | WorkerSrc

fun directive_name :: "directive \<Rightarrow> jstr" where
  "directive_name ScriptSrc = js ''script-src''"
| "directive_name StyleSrc = js ''style-src''"
| "directive_name FontSrc = js ''font-src''"
| "directive_name ConnectSrc = js ''connect-src''"
| "directive_name ImgSrc = js ''img-src''"
| "directive_name WorkerSrc = js ''worker-src''"

text \<open>
  \<^verbatim>\<open>new RegExp(`'${directive}':\\s*\\[([^\\]]*)\\]`, 's')\<close>: the names of the
  directives have no character that is special in a regular expression, so the name
  stands for itself.
\<close>

definition directive_key :: "directive \<Rightarrow> jstr" where
  "directive_key d = [39] @ directive_name d @ [39, 58]"

definition directiveRegex :: "directive \<Rightarrow> rx" where
  "directiveRegex d = seqs [
     lit (directive_key d),
     Star True (Chr is_space),
     Chr (\<lambda>c. c = 91),
     Grp 1 (Star True (Chr (\<lambda>c. c \<noteq> 93))),
     Chr (\<lambda>c. c = 93)]"

text \<open>
  The appending of a source, in \<open>addCSPSource\<close> of both programs:
  \<^verbatim>\<open>
  const match = content.match(directiveRegex);
  if (match) {
    const originalArray = match[1];
    const newSource = `'${source.trim()}'`;
    const updatedArray = originalArray.trimEnd() + `,\n    ${newSource},`;
    content = content.replace(directiveRegex, `'${directive}': [${updatedArray}]`);
    ...
  } else { ... could not find ... }
  \<close>
\<close>

datatype patch_error = DirectiveNotFound

definition newSource :: "jstr \<Rightarrow> jstr" where
  "newSource source = [39] @ trim source @ [39]"

definition updatedArray :: "jstr \<Rightarrow> jstr \<Rightarrow> jstr" where
  "updatedArray originalArray source =
     trimEnd originalArray @ js '','' @ [10] @ js ''    '' @ newSource source @ js '',''"

definition appendSource :: "jstr \<Rightarrow> directive \<Rightarrow> jstr \<Rightarrow> patch_error + jstr" where
  "appendSource content d source =
     (case rx_exec (directiveRegex d) content of
        None \<Rightarrow> Inl DirectiveNotFound
      | Some m \<Rightarrow>
          Inr (js_replace (directiveRegex d) content
                 (directive_key d @ js '' ['' @ updatedArray (capture_text (m_groups m) 1) source
                    @ js '']'')))"



section \<open>The file system\<close>

text \<open>
  The files of the working directory, by path; the paths at which the file system
  refuses to create or overwrite a file (no space, no permission); and the history of
  the writes, oldest first. A write takes effect as a whole or not at all.
\<close>

datatype fs_event = Copied string string | Wrote string

record world =
  files :: "string \<rightharpoonup> jstr"
  refuses :: "string \<Rightarrow> bool"
  trace :: "fs_event list"

datatype io_error = IOError

definition existsSync :: "world \<Rightarrow> string \<Rightarrow> bool" where
  "existsSync w p = (files w p \<noteq> None)"

definition readFileSync :: "world \<Rightarrow> string \<Rightarrow> io_error + jstr" where
  "readFileSync w p = (case files w p of None \<Rightarrow> Inl IOError | Some content \<Rightarrow> Inr content)"

definition copyFileSync :: "string \<Rightarrow> string \<Rightarrow> world \<Rightarrow> io_error + world" where
  "copyFileSync src dst w =
     (case files w src of
        None \<Rightarrow> Inl IOError
      | Some content \<Rightarrow>
          if refuses w dst then Inl IOError
          else Inr (w\<lparr>files := (files w)(dst \<mapsto> content), trace := trace w @ [Copied src dst]\<rparr>))"

definition writeFileSync :: "string \<Rightarrow> jstr \<Rightarrow> world \<Rightarrow> io_error + world" where
  "writeFileSync p content w =
     (if refuses w p then Inl IOError
      else Inr (w\<lparr>files := (files w)(p \<mapsto> content), trace := trace w @ [Wrote p]\<rparr>))"

text \<open>The decimal digits of \<open>Date.now()\<close>, as the template literal prints them.\<close>

function show_nat :: "nat \<Rightarrow> string" where
  "show_nat n =
     (if n < 10 then [char_of (48 + n)] else show_nat (n div 10) @ [char_of (48 + n mod 10)])"
  by pat_completeness auto
termination
  by (relation "measure id") auto

text \<open>\<^verbatim>\<open>`${filePath}.backup.${Date.now()}`\<close>\<close>

definition backup_path :: "string \<Rightarrow> nat \<Rightarrow> string" where
  "backup_path filePath now = filePath @ ''.backup.'' @ show_nat now"

definition possibleFiles :: "string list" where
  "possibleFiles = [''vite.config.ts'', ''vite.config.js'', ''vite.config.mjs'']"

section \<open>The command-line script\<close>

text \<open>
  What the script prints, one constructor for each message; \<open>MsgManual\<close> carries the
  text printed after the request to add the server headers by hand.
\<close>

datatype cli_msg =
    MsgBanner | MsgNoConfig | MsgFound string | MsgAlreadyExists | MsgBackupCreated string
  | MsgManual jstr | MsgSuccess
  | MsgSourceBanner | MsgPolicyNotFound | MsgMenu | MsgInvalidChoice | MsgNoSource
  | MsgAdded jstr directive | MsgDirectiveNotFound directive | MsgThrown io_error

text \<open>
  How the process ends: \<open>process.exit(n)\<close>, the end of the script, or an exception that
  nothing catches.
\<close>

datatype cli_exit = Exit nat | Completed | Uncaught io_error

definition findViteConfig :: "world \<Rightarrow> string option" where
  "findViteConfig w = find (existsSync w) possibleFiles"

definition backupFile :: "nat \<Rightarrow> string \<Rightarrow> world \<Rightarrow> io_error + world" where
  "backupFile now filePath w = copyFileSync filePath (backup_path filePath now) w"

text \<open>\<open>addCSPConfiguration\<close> of \<open>add-csp.js\<close>; \<open>now\<close> is the reading of the clock.\<close>

definition cli_addCSPConfiguration :: "nat \<Rightarrow> world \<Rightarrow> world \<times> cli_msg list \<times> cli_exit" where
  "cli_addCSPConfiguration now w =
     (case findViteConfig w of
        None \<Rightarrow> (w, [MsgBanner, MsgNoConfig], Exit 1)
      | Some viteConfigPath \<Rightarrow>
          (case readFileSync w viteConfigPath of
             Inl e \<Rightarrow> (w, [MsgBanner, MsgFound viteConfigPath], Uncaught e)
           | Inr content \<Rightarrow>
               if js_includes content marker
               then (w, [MsgBanner, MsgFound viteConfigPath, MsgAlreadyExists], Exit 0)
               else
                 (case backupFile now viteConfigPath w of
                    Inl e \<Rightarrow> (w, [MsgBanner, MsgFound viteConfigPath], Uncaught e)
                  | Inr w1 \<Rightarrow>
                      (let newContent = insertPolicyBlock CSP_POLICY_CODE content;
                           (newContent', found) = insertServerHeaders VITE_CONFIG_SERVER newContent;
                           msgs = [MsgBanner, MsgFound viteConfigPath,
                                   MsgBackupCreated (backup_path viteConfigPath now)]
                                  @ (if found then [] else [MsgManual VITE_CONFIG_SERVER])
                       in case writeFileSync viteConfigPath newContent' w1 of
                            Inl e \<Rightarrow> (w1, msgs, Uncaught e)
                          | Inr w2 \<Rightarrow> (w2, msgs @ [MsgSuccess], Completed)))))"

text \<open>
  The table \<open>directiveMap\<close> of the prompt, applied to the trimmed answer. (Only its own
  six keys are modelled, not the properties every JavaScript object inherits.)
\<close>

definition directiveMap :: "jstr \<Rightarrow> directive option" where
  "directiveMap choice =
     (if choice = js ''1'' then Some ScriptSrc
      else if choice = js ''2'' then Some StyleSrc
      else if choice = js ''3'' then Some FontSrc
      else if choice = js ''4'' then Some ConnectSrc
      else if choice = js ''5'' then Some ImgSrc
      else if choice = js ''6'' then Some WorkerSrc
      else None)"

text \<open>
  \<open>addCSPSource\<close> of \<open>add-csp.js\<close>; \<open>choice\<close> and \<open>source\<close> are the two answers of the
  operator. The function is asynchronous and its caller logs what it throws, so an
  exception ends the run without a write and without an exit code of its own.
\<close>

definition cli_addCSPSource ::
  "nat \<Rightarrow> jstr \<Rightarrow> jstr \<Rightarrow> world \<Rightarrow> world \<times> cli_msg list \<times> cli_exit" where
  "cli_addCSPSource now choice source w =
     (case findViteConfig w of
        None \<Rightarrow> (w, [MsgSourceBanner, MsgNoConfig], Exit 1)
      | Some viteConfigPath \<Rightarrow>
          (case readFileSync w viteConfigPath of
             Inl e \<Rightarrow> (w, [MsgSourceBanner, MsgThrown e], Completed)
           | Inr content \<Rightarrow>
               if \<not> js_includes content marker
               then (w, [MsgSourceBanner, MsgPolicyNotFound], Exit 1)
               else
                 (case directiveMap (trim choice) of
                    None \<Rightarrow> (w, [MsgSourceBanner, MsgMenu, MsgInvalidChoice], Exit 1)
                  | Some d \<Rightarrow>
                      if trim source = [] then (w, [MsgSourceBanner, MsgMenu, MsgNoSource], Exit 1)
                      else
                        (case backupFile now viteConfigPath w of
                           Inl e \<Rightarrow> (w, [MsgSourceBanner, MsgMenu, MsgThrown e], Completed)
                         | Inr w1 \<Rightarrow>
                             (let msgs = [MsgSourceBanner, MsgMenu,
                                          MsgBackupCreated (backup_path viteConfigPath now)]
                              in case appendSource content d source of
                                   Inl DirectiveNotFound \<Rightarrow>
                                     (w1, msgs @ [MsgDirectiveNotFound d], Exit 1)
                                 | Inr content' \<Rightarrow>
                                     (case writeFileSync viteConfigPath content' w1 of
                                        Inl e \<Rightarrow> (w1, msgs @ [MsgThrown e], Completed)
                                      | Inr w2 \<Rightarrow>
                                          (w2, msgs @ [MsgAdded (newSource source) d], Completed)))))))"

section \<open>The editor extension\<close>

text \<open>
  The messages the extension shows, and how a command ends: it returns, or its promise
  is rejected with what the file system threw.
\<close>

datatype ui_msg =
    ErrNoConfig | WarnAlreadyExists | InfoConfigurationAdded | ErrPolicyNotFound
  | InfoSourceAdded jstr directive | ErrDirectiveNotFound directive
  | InfoSourceExists jstr directive | ErrInvalidUrl

datatype ext_end = Returned | Rejected io_error

text \<open>
  \<open>findViteConfig\<close> of \<open>extension.ts\<close>: the candidates are looked up in the first
  workspace folder, if there is one. (\<open>path.join\<close> is modelled for a folder path that
  needs no normalisation.)
\<close>

definition path_join :: "string \<Rightarrow> string \<Rightarrow> string" where
  "path_join rootPath file = rootPath @ ''/'' @ file"

definition ext_findViteConfig :: "string option \<Rightarrow> world \<Rightarrow> string option" where
  "ext_findViteConfig workspaceFolder w =
     (case workspaceFolder of
        None \<Rightarrow> None
      | Some rootPath \<Rightarrow> find (existsSync w) (map (path_join rootPath) possibleFiles))"

text \<open>The backup of the extension, made when the setting \<open>viteCsp.autoBackup\<close> is on.\<close>

definition ext_backup :: "bool \<Rightarrow> nat \<Rightarrow> string \<Rightarrow> world \<Rightarrow> io_error + world" where
  "ext_backup autoBackup now viteConfigPath w =
     (if autoBackup then copyFileSync viteConfigPath (backup_path viteConfigPath now) w
      else Inr w)"

text \<open>\<open>addCSPConfiguration\<close> of \<open>extension.ts\<close>.\<close>

definition ext_addCSPConfiguration ::
  "string option \<Rightarrow> bool \<Rightarrow> nat \<Rightarrow> world \<Rightarrow> world \<times> ui_msg list \<times> ext_end" where
  "ext_addCSPConfiguration workspaceFolder autoBackup now w =
     (case ext_findViteConfig workspaceFolder w of
        None \<Rightarrow> (w, [ErrNoConfig], Returned)
      | Some viteConfigPath \<Rightarrow>
          (case readFileSync w viteConfigPath of
             Inl e \<Rightarrow> (w, [], Rejected e)
           | Inr content \<Rightarrow>
               if js_includes content marker then (w, [WarnAlreadyExists], Returned)
               else
                 (case ext_backup autoBackup now viteConfigPath w of
                    Inl e \<Rightarrow> (w, [], Rejected e)
                  | Inr w1 \<Rightarrow>
                      (let newContent = insertPolicyBlock CSP_POLICY_TEMPLATE content;
                           (newContent', found) = insertServerHeaders SERVER_CONFIG newContent
                       in case writeFileSync viteConfigPath newContent' w1 of
                            Inl e \<Rightarrow> (w1, [], Rejected e)
                          | Inr w2 \<Rightarrow> (w2, [InfoConfigurationAdded], Returned)))))"

text \<open>
  \<open>addCSPSource\<close> of \<open>extension.ts\<close>. \<open>addConfiguration\<close> says whether the operator
  presses the button of the error message, \<open>pick\<close> is the directive chosen in the quick
  pick and \<open>input\<close> the text of the input box (\<open>None\<close> when dismissed).
\<close>

definition ext_addCSPSource ::
  "string option \<Rightarrow> bool \<Rightarrow> nat \<Rightarrow> bool \<Rightarrow> directive option \<Rightarrow> jstr option \<Rightarrow> world
     \<Rightarrow> world \<times> ui_msg list \<times> ext_end" where
  "ext_addCSPSource workspaceFolder autoBackup now addConfiguration pick input w =
     (case ext_findViteConfig workspaceFolder w of
        None \<Rightarrow> (w, [ErrNoConfig], Returned)
      | Some viteConfigPath \<Rightarrow>
          (case readFileSync w viteConfigPath of
             Inl e \<Rightarrow> (w, [], Rejected e)
           | Inr content \<Rightarrow>
               if \<not> js_includes content marker then
                 (if addConfiguration
                  then (case ext_addCSPConfiguration workspaceFolder autoBackup now w of
                          (w', msgs, e) \<Rightarrow> (w', ErrPolicyNotFound # msgs, e))
                  else (w, [ErrPolicyNotFound], Returned))
               else
                 (case pick of
                    None \<Rightarrow> (w, [], Returned)
                  | Some d \<Rightarrow>
                      (case input of
                         None \<Rightarrow> (w, [], Returned)
                       | Some source \<Rightarrow>
                           if source = [] then (w, [], Returned)
                           else
                             (case ext_backup autoBackup now viteConfigPath w of
                                Inl e \<Rightarrow> (w, [], Rejected e)
                              | Inr w1 \<Rightarrow>
                                  (case appendSource content d source of
                                     Inl DirectiveNotFound \<Rightarrow> (w1, [ErrDirectiveNotFound d], Returned)
                                   | Inr content' \<Rightarrow>
                                       (case writeFileSync viteConfigPath content' w1 of
                                          Inl e \<Rightarrow> (w1, [], Rejected e)
                                        | Inr w2 \<Rightarrow>
                                            (w2, [InfoSourceAdded (newSource source) d], Returned))))))))"



text \<open>
  \<open>addSourceWithValues\<close> of \<open>extension.ts\<close>, which the command for a pasted DevTools
  error calls. \<open>parse_url\<close> stands for \<open>new URL(source)\<close>: the protocol and the host
  name of a valid URL, \<open>None\<close> for the \<open>TypeError\<close> of an invalid one. What is thrown
  inside the \<open>try\<close> block is caught and reported as an invalid URL. The directive is one
  of the six names of the policy.
\<close>

definition ext_addSourceWithValues ::
  "(jstr \<Rightarrow> (jstr \<times> jstr) option) \<Rightarrow> string option \<Rightarrow> bool \<Rightarrow> nat \<Rightarrow> directive \<Rightarrow> jstr \<Rightarrow> world
     \<Rightarrow> world \<times> ui_msg list \<times> ext_end" where
  "ext_addSourceWithValues parse_url workspaceFolder autoBackup now d source w =
     (case ext_findViteConfig workspaceFolder w of
        None \<Rightarrow> (w, [ErrNoConfig], Returned)
      | Some viteConfigPath \<Rightarrow>
          (case readFileSync w viteConfigPath of
             Inl e \<Rightarrow> (w, [], Rejected e)
           | Inr content \<Rightarrow>
               if \<not> js_includes content marker then (w, [ErrPolicyNotFound], Returned)
               else
                 (case ext_backup autoBackup now viteConfigPath w of
                    Inl e \<Rightarrow> (w, [], Rejected e)
                  | Inr w1 \<Rightarrow>
                      (case parse_url source of
                         None \<Rightarrow> (w1, [ErrInvalidUrl], Returned)
                       | Some (protocol, hostname) \<Rightarrow>
                           (let domain = protocol @ js ''//'' @ hostname
                            in case rx_exec (directiveRegex d) content of
                                 None \<Rightarrow> (w1, [], Returned)
                               | Some m \<Rightarrow>
                                   (let originalArray = capture_text (m_groups m) 1;
                                        quoted = [39] @ domain @ [39]
                                    in if js_includes originalArray quoted
                                       then (w1, [InfoSourceExists quoted d], Returned)
                                       else
                                         (let updated = trimEnd originalArray @ js '','' @ [10]
                                                          @ js ''    '' @ quoted @ js '','';
                                              content' = js_replace (directiveRegex d) content
                                                           (directive_key d @ js '' ['' @ updated @ js '']'')
                                          in case writeFileSync viteConfigPath content' w1 of
                                               Inl e \<Rightarrow> (w1, [ErrInvalidUrl], Returned)
                                             | Inr w2 \<Rightarrow>
                                                 (w2, [InfoSourceAdded quoted d], Returned))))))))"

section \<open>Notions of the specification\<close>

text \<open>
  What an invocation may do to the files: nothing; or one backup copy of a file, named
  after the file and the clock, holding its content; or that backup followed by one
  write of the same file.
\<close>

definition backup_discipline :: "nat \<Rightarrow> world \<Rightarrow> world \<Rightarrow> bool" where
  "backup_discipline now w w' \<longleftrightarrow>
     (trace w' = trace w \<and> files w' = files w)
   \<or> (\<exists>p c. files w p = Some c \<and>
          trace w' = trace w @ [Copied p (backup_path p now)] \<and>
          files w' = (files w)(backup_path p now \<mapsto> c))
   \<or> (\<exists>p c new. files w p = Some c \<and>
          trace w' = trace w @ [Copied p (backup_path p now), Wrote p] \<and>
          files w' (backup_path p now) = Some c \<and>
          files w' = (files w)(backup_path p now \<mapsto> c, p \<mapsto> new))"

text \<open>The minimal configuration file of the specification and the key of the headers.\<close>

definition minimal_config :: jstr where
  "minimal_config = js ''export default defineConfig({'' @ [10] @ js ''});''"

definition headers_key :: jstr where
  "headers_key = [39] @ js ''Content-Security-Policy'' @ [39]"

text \<open>Worlds and texts on which the theorems below are tried.\<close>

definition world_of :: "string \<Rightarrow> jstr \<Rightarrow> world" where
  "world_of p content = \<lparr>files = [p \<mapsto> content], refuses = (\<lambda>q. False), trace = []\<rparr>"

definition full_disk :: "string \<Rightarrow> jstr \<Rightarrow> world" where
  "full_disk p content = \<lparr>files = [p \<mapsto> content], refuses = (\<lambda>q. q \<noteq> p), trace = []\<rparr>"

section \<open>Properties\<close>

lemma rx_run_lit:
  "rx_run (lit k) (b, s, g) =
     (if take (length k) s = k then [(rev k @ b, drop (length k) s, g)] else [])"
proof (induction k arbitrary: b s)
  case Nil
  then show ?case by simp
next
  case (Cons c k)
  show ?case
  proof (cases s)
    case Nil
    then show ?thesis by simp
  next
    case (Cons x xs)
    then show ?thesis using Cons.IH [of "x # b" xs] by auto
  qed
qed

lemma star_commit:
  assumes "\<And>b' c cs g'. P c \<Longrightarrow> f (b', c # cs, g') = []"
  shows "concat (map f (rx_run (Star True (Chr P)) (b, s, g)))
           = f (rev (takeWhile P s) @ b, dropWhile P s, g)"
proof (induction s arbitrary: b)
  case Nil
  then show ?case by simp
next
  case (Cons c cs)
  show ?case
  proof (cases "P c")
    case True
    then show ?thesis using Cons.IH [of "c # b"] assms [of c b cs g] by simp
  next
    case False
    then show ?thesis by simp
  qed
qed

lemma run_class_then:
  assumes "\<And>c. P c \<Longrightarrow> \<not> Q c"
  shows "rx_run (Seq (Star True (Chr P)) (Seq (Chr Q) r)) (b, s, g)
           = rx_run (Seq (Chr Q) r) (rev (takeWhile P s) @ b, dropWhile P s, g)"
proof -
  have "\<And>b' c cs g'. P c \<Longrightarrow> rx_run (Seq (Chr Q) r) (b', c # cs, g') = []"
    using assms by simp
  from star_commit [of P "rx_run (Seq (Chr Q) r)", OF this]
  show ?thesis by simp
qed

lemma length_dropWhile_take:
  "take (length s - length (dropWhile P s)) s = takeWhile P s"
proof -
  have "length s - length (dropWhile P s) = length (takeWhile P s)"
    by (metis add_diff_cancel_right' length_append takeWhile_dropWhile_id)
  then show ?thesis
    by (metis append_eq_conv_conj takeWhile_dropWhile_id)
qed

lemma run_group_class:
  assumes "\<And>c. P c \<Longrightarrow> \<not> Q c"
  shows "rx_run (Seq (Grp n (Star True (Chr P))) (Chr Q)) (b, s, g)
           = (case dropWhile P s of
                [] \<Rightarrow> []
              | c # cs \<Rightarrow>
                  if Q c then [(c # rev (takeWhile P s) @ b, cs, g(n \<mapsto> takeWhile P s))] else [])"
proof -
  let ?h = "\<lambda>(b', rs', g'). (b', rs', g'(n \<mapsto> take (length s - length rs') s))"
  let ?f = "\<lambda>st. rx_run (Chr Q) (?h st)"
  have nil: "\<And>b' c cs g'. P c \<Longrightarrow> ?f (b', c # cs, g') = []"
    using assms by simp
  have "rx_run (Seq (Grp n (Star True (Chr P))) (Chr Q)) (b, s, g)
          = concat (map ?f (rx_run (Star True (Chr P)) (b, s, g)))"
    by (simp only: rx_run.simps map_map comp_def)
  also have "\<dots> = ?f (rev (takeWhile P s) @ b, dropWhile P s, g)"
    by (rule star_commit [of P ?f, OF nil])
  also have "\<dots> = (case dropWhile P s of
                [] \<Rightarrow> []
              | c # cs \<Rightarrow>
                  if Q c then [(c # rev (takeWhile P s) @ b, cs, g(n \<mapsto> takeWhile P s))] else [])"
  proof (cases "dropWhile P s")
    case Nil
    show ?thesis by (simp add: Nil)
  next
    case (Cons c cs)
    have "take (length s - Suc (length cs)) s = takeWhile P s"
      using length_dropWhile_take [of s P] Cons by simp
    then show ?thesis by (simp add: Cons)
  qed
  finally show ?thesis .
qed

lemma is_space_not_bracket: "is_space c \<Longrightarrow> c \<noteq> 91"
  by (auto simp: is_space_def is_white_space_def is_line_terminator_def)

lemma directive_run:
  "rx_run (directiveRegex d) (b, s, g) =
     (if take (length (directive_key d)) s = directive_key d then
        (case dropWhile is_space (drop (length (directive_key d)) s) of
           [] \<Rightarrow> []
         | c # s3 \<Rightarrow>
             if c = 91 then
               (case dropWhile (\<lambda>x. x \<noteq> 93) s3 of
                  [] \<Rightarrow> []
                | c' # s4 \<Rightarrow>
                    [(c' # rev (takeWhile (\<lambda>x. x \<noteq> 93) s3) @ c #
                        rev (takeWhile is_space (drop (length (directive_key d)) s)) @
                        rev (directive_key d) @ b,
                      s4, g(1 \<mapsto> takeWhile (\<lambda>x. x \<noteq> 93) s3))])
             else [])
      else [])"
proof -
  let ?k = "directive_key d"
  let ?r3 = "Seq (Grp 1 (Star True (Chr (\<lambda>c. c \<noteq> 93)))) (Chr (\<lambda>c. c = 93))"
  let ?r2 = "Seq (Chr (\<lambda>c. c = 91)) ?r3"
  let ?r1 = "Seq (Star True (Chr is_space)) ?r2"
  have unfold: "directiveRegex d = Seq (lit ?k) ?r1"
    by (simp add: directiveRegex_def)
  have r3: "\<And>b s g. rx_run ?r3 (b, s, g) =
      (case dropWhile (\<lambda>x. x \<noteq> 93) s of
         [] \<Rightarrow> []
       | c # cs \<Rightarrow> [(c # rev (takeWhile (\<lambda>x. x \<noteq> 93) s) @ b, cs,
                     g(1 \<mapsto> takeWhile (\<lambda>x. x \<noteq> 93) s))])"
  proof -
    fix b s g
    have hd93: "\<And>c cs. dropWhile (\<lambda>x. x \<noteq> (93::nat)) s = c # cs \<Longrightarrow> c = 93"
      using hd_dropWhile [of "\<lambda>x. x \<noteq> (93::nat)" s] by auto
    show "rx_run ?r3 (b, s, g) =
      (case dropWhile (\<lambda>x. x \<noteq> 93) s of
         [] \<Rightarrow> []
       | c # cs \<Rightarrow> [(c # rev (takeWhile (\<lambda>x. x \<noteq> 93) s) @ b, cs,
                     g(1 \<mapsto> takeWhile (\<lambda>x. x \<noteq> 93) s))])"
    proof (cases "dropWhile (\<lambda>x. x \<noteq> (93::nat)) s")
      case Nil
      show ?thesis by (subst run_group_class) (simp_all add: Nil)
    next
      case (Cons c cs)
      have "c = 93" using hd93 [OF Cons] .
      then show ?thesis by (subst run_group_class) (simp_all add: Cons)
    qed
  qed
  have r2: "\<And>b s g. rx_run ?r2 (b, s, g) =
      (case s of [] \<Rightarrow> [] | c # s3 \<Rightarrow> if c = 91 then rx_run ?r3 (c # b, s3, g) else [])"
    subgoal for b s g by (cases s) simp_all
    done
  have r1: "\<And>b s g. rx_run ?r1 (b, s, g) =
      rx_run ?r2 (rev (takeWhile is_space s) @ b, dropWhile is_space s, g)"
    by (rule run_class_then) (rule is_space_not_bracket)
  have "rx_run (directiveRegex d) (b, s, g) =
      concat (map (rx_run ?r1) (rx_run (lit ?k) (b, s, g)))"
    by (simp only: unfold rx_run.simps)
  also have "\<dots> = (if take (length ?k) s = ?k
                   then rx_run ?r1 (rev ?k @ b, drop (length ?k) s, g) else [])"
    by (simp add: rx_run_lit del: rx_run.simps)
  finally show ?thesis
    by (simp only: r1 r2 r3)
qed

lemma rx_scan_Some:
  "rx_scan r b s = Some m \<Longrightarrow>
     \<exists>pre rest b' rest' g rs.
        s = pre @ rest \<and> m_index m = length b + length pre \<and>
        rx_run r (rev pre @ b, rest, Map.empty) = (b', rest', g) # rs \<and>
        m_text m = take (length rest - length rest') rest \<and> m_groups m = g \<and>
        (\<forall>p1 p2. pre = p1 @ p2 \<and> p2 \<noteq> [] \<longrightarrow>
           rx_run r (rev p1 @ b, p2 @ rest, Map.empty) = [])"
proof (induction r b s rule: rx_scan.induct)
  case (1 r b rest)
  show ?case
  proof (cases "rx_run r (b, rest, Map.empty)")
    case (Cons st sts)
    obtain b' rest' g where st: "st = (b', rest', g)" by (cases st) auto
    from "1.prems" Cons st
    have m: "m = \<lparr>m_index = length b, m_text = take (length rest - length rest') rest, m_groups = g\<rparr>"
      by simp
    show ?thesis
      apply (rule exI [of _ "[]"], rule exI [of _ rest], rule exI [of _ b'],
             rule exI [of _ rest'], rule exI [of _ g], rule exI [of _ sts])
      using Cons st m by simp
  next
    case Nil
    show ?thesis
    proof (cases rest)
      case Nil': Nil
      with Nil "1.prems" show ?thesis by simp
    next
      case (Cons c cs)
      with Nil "1.prems" have "rx_scan r (c # b) cs = Some m" by simp
      from "1.IH" [OF Nil Cons this]
      obtain pre rest0 b' rest' g rs where
        h: "cs = pre @ rest0" "m_index m = length (c # b) + length pre"
           "rx_run r (rev pre @ c # b, rest0, Map.empty) = (b', rest', g) # rs"
           "m_text m = take (length rest0 - length rest') rest0" "m_groups m = g"
           "\<forall>p1 p2. pre = p1 @ p2 \<and> p2 \<noteq> [] \<longrightarrow>
              rx_run r (rev p1 @ c # b, p2 @ rest0, Map.empty) = []"
        by blast
      have first: "\<forall>p1 p2. c # pre = p1 @ p2 \<and> p2 \<noteq> [] \<longrightarrow>
              rx_run r (rev p1 @ b, p2 @ rest0, Map.empty) = []"
      proof (intro allI impI)
        fix p1 p2 assume a: "c # pre = p1 @ p2 \<and> p2 \<noteq> []"
        show "rx_run r (rev p1 @ b, p2 @ rest0, Map.empty) = []"
        proof (cases p1)
          case Nil
          with a have "p2 @ rest0 = rest" using h(1) Cons by simp
          with Nil \<open>rx_run r (b, rest, Map.empty) = []\<close> show ?thesis by simp
        next
          case (Cons x xs)
          with a have "x = c" "pre = xs @ p2" by simp_all
          with h(6) a have "rx_run r (rev xs @ c # b, p2 @ rest0, Map.empty) = []" by blast
          with Cons \<open>x = c\<close> show ?thesis by simp
        qed
      qed
      show ?thesis
        apply (rule exI [of _ "c # pre"], rule exI [of _ rest0], rule exI [of _ b'],
               rule exI [of _ rest'], rule exI [of _ g], rule exI [of _ rs])
        using h first Cons by simp
    qed
  qed
qed

lemma rx_scan_skip:
  "(\<And>p1 p2. pre = p1 @ p2 \<Longrightarrow> p2 \<noteq> [] \<Longrightarrow> rx_run r (rev p1 @ b, p2 @ s, Map.empty) = [])
     \<Longrightarrow> rx_scan r b (pre @ s) = rx_scan r (rev pre @ b) s"
proof (induction pre arbitrary: b)
  case Nil
  then show ?case by simp
next
  case (Cons c pre)
  have here: "rx_run r (b, (c # pre) @ s, Map.empty) = []"
    using Cons.prems [of "[]" "c # pre"] by simp
  have "rx_scan r (c # b) (pre @ s) = rx_scan r (rev pre @ c # b) s"
  proof (rule Cons.IH)
    fix p1 p2 assume "pre = p1 @ p2" "p2 \<noteq> []"
    then show "rx_run r (rev p1 @ c # b, p2 @ s, Map.empty) = []"
      using Cons.prems [of "c # p1" p2] by simp
  qed
  then show ?case using here by (subst rx_scan.simps) simp
qed

lemma rx_scan_None:
  "rx_scan r b s = None \<Longrightarrow> rx_run r (b, s, Map.empty) = []"
  by (subst (asm) rx_scan.simps) (auto split: list.splits)

lemma hd_dropWhile_93: "dropWhile (\<lambda>x. x \<noteq> (93::nat)) s = c # cs \<Longrightarrow> c = 93"
  using hd_dropWhile [of "\<lambda>x. x \<noteq> (93::nat)" s] by auto

lemma directive_run_Cons:
  assumes "rx_run (directiveRegex d) (b, s, g) = st # sts"
  shows "\<exists>ws arr post.
           s = directive_key d @ ws @ [91] @ arr @ [93] @ post \<and>
           (\<forall>c\<in>set ws. is_space c) \<and> 93 \<notin> set arr \<and>
           st = (rev (directive_key d @ ws @ [91] @ arr @ [93]) @ b, post, g(1 \<mapsto> arr)) \<and>
           sts = []"
proof -
  let ?k = "directive_key d"
  let ?s1 = "drop (length ?k) s"
  from assms have k: "take (length ?k) s = ?k"
    by (simp add: directive_run split: if_splits)
  from assms k obtain c s3 where s2: "dropWhile is_space ?s1 = c # s3"
    by (cases "dropWhile is_space ?s1") (simp_all add: directive_run)
  from assms k s2 have c: "c = 91"
    by (simp add: directive_run split: if_splits)
  from assms k s2 c obtain c' s4 where s3: "dropWhile (\<lambda>x. x \<noteq> 93) s3 = c' # s4"
    by (cases "dropWhile (\<lambda>x. x \<noteq> 93) s3") (simp_all add: directive_run)
  have c': "c' = 93" using hd_dropWhile_93 [OF s3] .
  let ?ws = "takeWhile is_space ?s1"
  let ?arr = "takeWhile (\<lambda>x. x \<noteq> 93) s3"
  have "s = take (length ?k) s @ ?s1" by simp
  also have "?s1 = ?ws @ dropWhile is_space ?s1" by simp
  also have "dropWhile is_space ?s1 = [91] @ s3" using s2 c by simp
  also have "s3 = ?arr @ dropWhile (\<lambda>x. x \<noteq> 93) s3" by simp
  also have "dropWhile (\<lambda>x. x \<noteq> 93) s3 = [93] @ s4" using s3 c' by simp
  finally have s: "s = ?k @ ?ws @ [91] @ ?arr @ [93] @ s4" using k by simp
  have ws: "\<forall>c\<in>set ?ws. is_space c" by (auto dest: set_takeWhileD)
  have arr: "93 \<notin> set ?arr" by (auto dest: set_takeWhileD)
  have st: "st = (rev (?k @ ?ws @ [91] @ ?arr @ [93]) @ b, s4, g(1 \<mapsto> ?arr)) \<and> sts = []"
    using assms k s2 c s3 c' by (simp add: directive_run)
  show ?thesis
    apply (rule exI [of _ ?ws], rule exI [of _ ?arr], rule exI [of _ s4])
    using s ws arr st by blast
qed

lemma directive_run_match:
  assumes "\<forall>c\<in>set ws. is_space c" and "93 \<notin> set arr"
  shows "rx_run (directiveRegex d) (b, directive_key d @ ws @ [91] @ arr @ [93] @ post, g)
           = [(rev (directive_key d @ ws @ [91] @ arr @ [93]) @ b, post, g(1 \<mapsto> arr))]"
proof -
  have 1: "dropWhile is_space (ws @ 91 # arr @ 93 # post) = 91 # arr @ 93 # post"
    using assms(1) is_space_not_bracket by (subst dropWhile_append2) auto
  have 2: "takeWhile is_space (ws @ 91 # arr @ 93 # post) = ws"
    using assms(1) is_space_not_bracket by (subst takeWhile_append2) auto
  have 3: "dropWhile (\<lambda>x. x \<noteq> 93) (arr @ 93 # post) = 93 # post"
    using assms(2) by (subst dropWhile_append2) auto
  have 4: "takeWhile (\<lambda>x. x \<noteq> 93) (arr @ 93 # post) = arr"
    using assms(2) by (subst takeWhile_append2) auto
  show ?thesis by (simp add: directive_run 1 2 3 4)
qed

lemma directive_exec_Some:
  assumes "rx_exec (directiveRegex d) s = Some m"
  shows "\<exists>pre ws arr post.
           s = pre @ directive_key d @ ws @ [91] @ arr @ [93] @ post \<and>
           (\<forall>c\<in>set ws. is_space c) \<and> 93 \<notin> set arr \<and>
           m_index m = length pre \<and>
           m_text m = directive_key d @ ws @ [91] @ arr @ [93] \<and>
           m_groups m 1 = Some arr \<and>
           (\<forall>p1 p2. pre = p1 @ p2 \<and> p2 \<noteq> [] \<longrightarrow>
              rx_run (directiveRegex d)
                (rev p1, p2 @ directive_key d @ ws @ [91] @ arr @ [93] @ post, Map.empty) = [])"
proof -
  from rx_scan_Some [OF assms [unfolded rx_exec_def]]
  obtain pre rest b' rest' g rs where
    h: "s = pre @ rest" "m_index m = length pre"
       "rx_run (directiveRegex d) (rev pre, rest, Map.empty) = (b', rest', g) # rs"
       "m_text m = take (length rest - length rest') rest" "m_groups m = g"
       "\<forall>p1 p2. pre = p1 @ p2 \<and> p2 \<noteq> [] \<longrightarrow>
           rx_run (directiveRegex d) (rev p1, p2 @ rest, Map.empty) = []"
    by auto
  from directive_run_Cons [OF h(3)]
  obtain ws arr post where
    r: "rest = directive_key d @ ws @ [91] @ arr @ [93] @ post"
       "\<forall>c\<in>set ws. is_space c" "93 \<notin> set arr"
       "(b', rest', g) = (rev (directive_key d @ ws @ [91] @ arr @ [93]) @ rev pre, post,
                          Map.empty(1 \<mapsto> arr))"
    by auto
  have mt: "m_text m = directive_key d @ ws @ [91] @ arr @ [93]"
    using h(4) r(1) r(4) by simp
  show ?thesis
    apply (rule exI [of _ pre], rule exI [of _ ws], rule exI [of _ arr], rule exI [of _ post])
    using h(1,2,5,6) r mt by auto
qed

lemma directive_exec_first:
  assumes "\<And>p1 p2. pre = p1 @ p2 \<Longrightarrow> p2 \<noteq> [] \<Longrightarrow>
             rx_run (directiveRegex d)
               (rev p1, p2 @ directive_key d @ ws @ [91] @ arr @ [93] @ post, Map.empty) = []"
    and "\<forall>c\<in>set ws. is_space c" and "93 \<notin> set arr"
  shows "rx_exec (directiveRegex d) (pre @ directive_key d @ ws @ [91] @ arr @ [93] @ post)
           = Some \<lparr>m_index = length pre,
                   m_text = directive_key d @ ws @ [91] @ arr @ [93],
                   m_groups = Map.empty(1 \<mapsto> arr)\<rparr>"
proof -
  let ?rest = "directive_key d @ ws @ [91] @ arr @ [93] @ post"
  have "rx_exec (directiveRegex d) (pre @ ?rest) = rx_scan (directiveRegex d) (rev pre @ []) ?rest"
    unfolding rx_exec_def using assms(1) by (intro rx_scan_skip) simp
  also have "\<dots> = Some \<lparr>m_index = length pre,
                   m_text = directive_key d @ ws @ [91] @ arr @ [93],
                   m_groups = Map.empty(1 \<mapsto> arr)\<rparr>"
    by (subst rx_scan.simps, subst directive_run_match [OF assms(2,3)]) simp
  finally show ?thesis .
qed

lemma take_line_eq:
  assumes "(10::nat) \<notin> set k"
  shows "take (length k) (l @ 10 # rest) = k \<longleftrightarrow> take (length k) l = k"
proof (cases "length k \<le> length l")
  case True
  then show ?thesis by simp
next
  case False
  then have len: "length l < length k" by simp
  have a: "take (length k) l \<noteq> k"
  proof
    assume "take (length k) l = k"
    then have "length (take (length k) l) = length k" by simp
    with len show False by simp
  qed
  have b: "take (length k) (l @ 10 # rest) \<noteq> k"
  proof
    assume e: "take (length k) (l @ 10 # rest) = k"
    have "(take (length k) (l @ 10 # rest)) ! length l = 10"
      using len by (simp add: nth_append)
    with e have "k ! length l = 10" by simp
    with len have "10 \<in> set k" using nth_mem [of "length l" k] by simp
    with assms show False by simp
  qed
  from a b show ?thesis by simp
qed

lemma occurrences_line:
  assumes "10 \<notin> set k" and "k \<noteq> []"
  shows "occurrences (l @ 10 # rest) k = occurrences l k + occurrences rest k"
proof (induction l)
  case Nil
  have "take (length k) (10 # rest) \<noteq> k"
    using assms by (cases k) auto
  then show ?case using assms by simp
next
  case (Cons c l)
  have "take (length k) (c # l @ 10 # rest) = k \<longleftrightarrow> take (length k) (c # l) = k"
    using take_line_eq [OF assms(1), of "c # l" rest] by simp
  then show ?case using Cons by simp
qed

lemma occurrences_js_lines:
  assumes "10 \<notin> set k" and "k \<noteq> []"
  shows "occurrences (js_lines ls @ rest) k = sum_list (map (\<lambda>l. occurrences l k) ls) + occurrences rest k"
proof (induction ls)
  case Nil
  then show ?case by (simp add: js_lines_def)
next
  case (Cons l ls)
  have "js_lines (l # ls) @ rest = l @ 10 # (js_lines ls @ rest)"
    by (simp add: js_lines_def)
  then show ?case using Cons occurrences_line [OF assms] by simp
qed

lemma js_includes_occurrences: "js_includes s k \<longleftrightarrow> 0 < occurrences s k"
  by (induction s) auto

lemma marker_plain: "10 \<notin> set marker" "marker \<noteq> []"
  by (simp_all add: marker_def js_def)

lemma get_substitution_plain:
  "36 \<notin> set repl \<Longrightarrow> get_substitution matched str pos ncaps g repl = repl"
  by (induction matched str pos ncaps g repl rule: get_substitution.induct) auto

lemma set_trimEnd: "set (trimEnd s) \<subseteq> set s"
  unfolding trimEnd_def using set_dropWhileD [of _ is_space "rev s"] by auto

lemma set_trim: "set (trim s) \<subseteq> set s"
  unfolding trim_def trimStart_def
  using set_trimEnd [of "dropWhile is_space s"] set_dropWhileD [of _ is_space s] by auto

lemma trimEnd_snoc: "\<not> is_space c \<Longrightarrow> trimEnd (s @ [c]) = s @ [c]"
  by (simp add: trimEnd_def)

lemma directive_key_plain: "36 \<notin> set (directive_key d)" "93 \<notin> set (directive_key d)"
  by (cases d; simp add: directive_key_def js_def)+

lemma updatedArray_plain:
  assumes "36 \<notin> set arr" and "36 \<notin> set source"
  shows "36 \<notin> set (directive_key d @ js '' ['' @ updatedArray arr source @ js '']'')"
proof -
  have "36 \<notin> set (trimEnd arr)" using assms(1) set_trimEnd [of arr] by auto
  moreover have "36 \<notin> set (trim source)" using assms(2) set_trim [of source] by auto
  ultimately show ?thesis
    using directive_key_plain(1) [of d] by (simp add: updatedArray_def newSource_def js_def)
qed

lemma appendSource_at:
  assumes ex: "rx_exec (directiveRegex d) (pre @ mt @ post) = Some m"
    and m: "m_index m = length pre" "m_text m = mt" "m_groups m 1 = Some arr"
    and plain: "36 \<notin> set arr" "36 \<notin> set source"
  shows "appendSource (pre @ mt @ post) d source
           = Inr (pre @ directive_key d @ js '' ['' @ updatedArray arr source @ js '']'' @ post)"
proof -
  have cap: "capture_text (m_groups m) 1 = arr" using m(3) by (simp add: capture_text_def)
  show ?thesis
    unfolding appendSource_def js_replace_def
    by (simp only: ex option.case cap m get_substitution_plain [OF updatedArray_plain [OF plain]])
       simp
qed


lemma appendSource_first:
  assumes "\<And>p1 p2. pre = p1 @ p2 \<Longrightarrow> p2 \<noteq> [] \<Longrightarrow>
             rx_run (directiveRegex d)
               (rev p1, p2 @ directive_key d @ ws @ [91] @ arr @ [93] @ post, Map.empty) = []"
    and "\<forall>c\<in>set ws. is_space c" and "93 \<notin> set arr"
    and "36 \<notin> set arr" and "36 \<notin> set source"
  shows "appendSource (pre @ directive_key d @ ws @ [91] @ arr @ [93] @ post) d source
           = Inr (pre @ directive_key d @ js '' ['' @ updatedArray arr source @ js '']'' @ post)"
proof -
  let ?mt = "directive_key d @ ws @ [91] @ arr @ [93]"
  have ex: "rx_exec (directiveRegex d) (pre @ ?mt @ post)
              = Some \<lparr>m_index = length pre, m_text = ?mt, m_groups = Map.empty(1 \<mapsto> arr)\<rparr>"
    using directive_exec_first [of pre d ws arr post, OF assms(1) assms(2) assms(3)] by simp
  show ?thesis
    using appendSource_at [OF ex _ _ _ assms(4,5)] by simp
qed

text \<open>
  C4, as amended. When the text has an array of the directive, and neither the content
  of that array nor the source has a dollar sign, \<open>appendSource\<close> keeps the content
  between the brackets up to its trailing white space, which it drops, and puts after it a
  comma, a line break, four spaces, the trimmed source in single quotes and a comma. The
  text before the key and after the closing bracket is kept; the white space between the
  colon and the opening bracket becomes one space.
\<close>

theorem appendSource_keeps_trimmed_array:
  assumes "rx_exec (directiveRegex d) content = Some m"
    and "36 \<notin> set (capture_text (m_groups m) 1)" and "36 \<notin> set source"
  shows "\<exists>pre ws post.
           content = pre @ directive_key d @ ws @ [91] @ capture_text (m_groups m) 1 @ [93] @ post \<and>
           (\<forall>c\<in>set ws. is_space c) \<and>
           appendSource content d source
             = Inr (pre @ directive_key d @ js '' ['' @ trimEnd (capture_text (m_groups m) 1)
                      @ js '','' @ [10] @ js ''    '' @ [39] @ trim source @ [39] @ js '',''
                      @ js '']'' @ post)"
proof -
  from directive_exec_Some [OF assms(1)]
  obtain pre ws arr post where
    h: "content = pre @ directive_key d @ ws @ [91] @ arr @ [93] @ post"
       "\<forall>c\<in>set ws. is_space c" "93 \<notin> set arr" "m_index m = length pre"
       "m_text m = directive_key d @ ws @ [91] @ arr @ [93]" "m_groups m 1 = Some arr"
    by blast
  have cap: "capture_text (m_groups m) 1 = arr" using h(6) by (simp add: capture_text_def)
  have ex: "rx_exec (directiveRegex d) (pre @ (directive_key d @ ws @ [91] @ arr @ [93]) @ post) = Some m"
    using assms(1) h(1) by simp
  have "appendSource (pre @ (directive_key d @ ws @ [91] @ arr @ [93]) @ post) d source
          = Inr (pre @ directive_key d @ js '' ['' @ updatedArray arr source @ js '']'' @ post)"
    using appendSource_at [OF ex h(4) h(5) h(6)] assms(2,3) cap by simp
  then have "appendSource content d source
          = Inr (pre @ directive_key d @ js '' ['' @ trimEnd arr
                      @ js '','' @ [10] @ js ''    '' @ [39] @ trim source @ [39] @ js '',''
                      @ js '']'' @ post)"
    using h(1) by (simp add: updatedArray_def newSource_def)
  with h(1,2) cap show ?thesis by blast
qed

lemma take_eq_length:
  assumes "take (length k) s = k"
  shows "length k \<le> length s"
proof -
  have "length (take (length k) s) = length k" using assms by simp
  then show ?thesis by (simp add: min_def split: if_splits)
qed

lemma js_includes_prefix: "take (length k) s = k \<Longrightarrow> js_includes s k"
  by (cases s) auto

lemma js_includes_appendI2: "js_includes s k \<Longrightarrow> js_includes (a @ s) k"
proof (induction a)
  case Nil
  then show ?case by simp
next
  case (Cons c a)
  then show ?case by simp
qed

lemma js_includes_appendI1: "js_includes s k \<Longrightarrow> js_includes (s @ b) k"
proof (induction s)
  case Nil
  then show ?case by (cases b) auto
next
  case (Cons c s)
  show ?case
  proof (cases "take (length k) (c # s) = k")
    case True
    then have "length k \<le> length (c # s)" by (rule take_eq_length)
    then have "take (length k) ((c # s) @ b) = take (length k) (c # s)"
      using take_append [of "length k" "c # s" b] by simp
    with True show ?thesis by (intro js_includes_prefix) simp
  next
    case False
    with Cons.prems have "js_includes s k" by simp
    then have "js_includes (s @ b) k" by (rule Cons.IH)
    then show ?thesis by simp
  qed
qed

lemma js_includes_middle: "js_includes s k \<Longrightarrow> js_includes (a @ s @ b) k"
  by (intro js_includes_appendI2 js_includes_appendI1)

lemma rx_scan_found:
  "rx_run r (rev pre @ b, rest, Map.empty) \<noteq> [] \<Longrightarrow> rx_scan r b (pre @ rest) \<noteq> None"
proof (induction pre arbitrary: b)
  case Nil
  then show ?case by (subst rx_scan.simps) (auto split: list.splits)
next
  case (Cons c pre)
  have "rx_scan r (c # b) (pre @ rest) \<noteq> None"
    using Cons.IH [of "c # b"] Cons.prems by simp
  then show ?case by (subst rx_scan.simps) (auto split: list.splits)
qed

lemma directive_test_iff:
  "rx_test (directiveRegex d) s \<longleftrightarrow>
     (\<exists>pre ws arr post.
        s = pre @ directive_key d @ ws @ [91] @ arr @ [93] @ post \<and>
        (\<forall>c\<in>set ws. is_space c) \<and> 93 \<notin> set arr)"
proof
  assume "rx_test (directiveRegex d) s"
  then obtain m where "rx_exec (directiveRegex d) s = Some m"
    by (auto simp: rx_test_def)
  from directive_exec_Some [OF this] show
    "\<exists>pre ws arr post.
        s = pre @ directive_key d @ ws @ [91] @ arr @ [93] @ post \<and>
        (\<forall>c\<in>set ws. is_space c) \<and> 93 \<notin> set arr"
    by blast
next
  assume "\<exists>pre ws arr post.
        s = pre @ directive_key d @ ws @ [91] @ arr @ [93] @ post \<and>
        (\<forall>c\<in>set ws. is_space c) \<and> 93 \<notin> set arr"
  then obtain pre ws arr post where
    h: "s = pre @ directive_key d @ ws @ [91] @ arr @ [93] @ post"
       "\<forall>c\<in>set ws. is_space c" "93 \<notin> set arr"
    by blast
  have "rx_run (directiveRegex d)
          (rev pre @ [], directive_key d @ ws @ [91] @ arr @ [93] @ post, Map.empty) \<noteq> []"
    by (subst directive_run_match [OF h(2,3)]) simp
  from rx_scan_found [OF this] show "rx_test (directiveRegex d) s"
    by (simp add: rx_test_def rx_exec_def h(1))
qed



lemma is_space_simps:
  "is_space 32" "is_space 10" "\<not> is_space 34" "\<not> is_space 39" "\<not> is_space 44"
  "\<not> is_space 58" "\<not> is_space 104" "\<not> is_space 109" "\<not> is_space 120"
  by (simp_all add: is_space_def is_white_space_def is_line_terminator_def)



lemma appendSource_alone:
  assumes "\<forall>c\<in>set ws. is_space c" and "93 \<notin> set arr"
    and "36 \<notin> set arr" and "36 \<notin> set source"
  shows "appendSource (directive_key d @ ws @ [91] @ arr @ [93] @ post) d source
           = Inr (directive_key d @ js '' ['' @ updatedArray arr source @ js '']'' @ post)"
  using appendSource_first [of "[]" d ws arr post source] assms by simp

lemma exec_alone:
  assumes "\<forall>c\<in>set ws. is_space c" and "93 \<notin> set arr"
  shows "rx_exec (directiveRegex d) (directive_key d @ ws @ [91] @ arr @ [93] @ post)
           = Some \<lparr>m_index = 0, m_text = directive_key d @ ws @ [91] @ arr @ [93],
                   m_groups = Map.empty(1 \<mapsto> arr)\<rparr>"
  using directive_exec_first [of "[]" d ws arr post] assms by simp

theorem appendSource_keeps_trimmed_array_witness:
  \<open>\<exists>pre ws post.
      directive_key ImgSrc @ js '' ["a" ]'' = pre @ directive_key ImgSrc @ ws @ [91] @ js ''"a" '' @ [93] @ post \<and>
      (\<forall>c\<in>set ws. is_space c) \<and>
      appendSource (directive_key ImgSrc @ js '' ["a" ]'') ImgSrc (js ''x'')
        = Inr (pre @ directive_key ImgSrc @ js '' ['' @ trimEnd (js ''"a" '')
                 @ js '','' @ [10] @ js ''    '' @ [39] @ trim (js ''x'') @ [39] @ js '',''
                 @ js '']'' @ post)\<close>
proof -
  let ?m = \<open>\<lparr>m_index = 0, m_text = directive_key ImgSrc @ [32] @ [91] @ js ''"a" '' @ [93],
              m_groups = Map.empty(1 \<mapsto> js ''"a" '')\<rparr>\<close>
  have ex: \<open>rx_exec (directiveRegex ImgSrc) (directive_key ImgSrc @ js '' ["a" ]'') = Some ?m\<close>
    using exec_alone [of "[32]" \<open>js ''"a" ''\<close> ImgSrc "[]"]
    by (simp add: js_def is_space_simps)
  have a: \<open>36 \<notin> set (capture_text (m_groups ?m) 1)\<close>
    by (simp add: capture_text_def js_def)
  have b: "36 \<notin> set (js ''x'')" by (simp add: js_def)
  show ?thesis
    using appendSource_keeps_trimmed_array [OF ex a b] by (simp add: capture_text_def)
qed

text \<open>
  C4 as stated fails: the white space that ends the content of the array is not kept.
  The array \<^verbatim>\<open>["a" ]\<close> becomes \<^verbatim>\<open>["a",\<close>, a line break and \<^verbatim>\<open>    'x',]\<close>, without the
  space that followed \<^verbatim>\<open>"a"\<close>.
\<close>

theorem appendSource_verbatim_counterexample:
  \<open>appendSource (directive_key ImgSrc @ js '' ["a" ]'') ImgSrc (js ''x'')
     = Inr (directive_key ImgSrc @ js '' ["a",'' @ [10] @ js ''    'x',]'') \<and>
   appendSource (directive_key ImgSrc @ js '' ["a" ]'') ImgSrc (js ''x'')
     \<noteq> Inr (directive_key ImgSrc @ js '' ["a" ,'' @ [10] @ js ''    'x',]'')\<close>
proof -
  have \<open>appendSource (directive_key ImgSrc @ [32] @ [91] @ js ''"a" '' @ [93] @ []) ImgSrc (js ''x'')
          = Inr (directive_key ImgSrc @ js '' ['' @ updatedArray (js ''"a" '') (js ''x'') @ js '']'' @ [])\<close>
    by (rule appendSource_alone) (simp_all add: js_def is_space_simps)
  moreover have \<open>updatedArray (js ''"a" '') (js ''x'') = js ''"a",'' @ [10] @ js ''    'x',''\<close>
    by (simp add: updatedArray_def newSource_def trim_def trimStart_def trimEnd_def js_def
          is_space_simps)
  ultimately show ?thesis by (simp add: js_def)
qed

lemma directive_key_last: "directive_key d \<noteq> []" "last (directive_key d) = 58"
  by (simp_all add: directive_key_def)

text \<open>
  A match attempt that starts before an occurrence of the key is decided before the end
  of that occurrence, as long as a closing bracket follows.
\<close>

lemma directive_run_transfer:
  assumes p2: "p2 \<noteq> []"
    and r0: "rx_run (directiveRegex d) (b, p2 @ directive_key d @ t0, g) = []"
    and t0: "93 \<in> set t0"
  shows "rx_run (directiveRegex d) (b', p2 @ directive_key d @ t1, g') = []"
proof -
  let ?k = "directive_key d"
  let ?q = "drop (length ?k) (p2 @ ?k)"
  have qne: "?q \<noteq> []" unfolding drop_eq_Nil using p2 by (cases p2) simp_all
  have "last ?q = last (p2 @ ?k)" using p2 by (intro last_drop) simp
  then have lastq: "last ?q = 58" using directive_key_last [of d] by simp
  then have in_q: "58 \<in> set ?q" using qne last_in_set by metis
  define P where "P \<longleftrightarrow> take (length ?k) (p2 @ ?k) = ?k"
  have tk: "\<And>t. (take (length ?k) (p2 @ ?k @ t) = ?k) = P"
    using take_append [of "length ?k" "p2 @ ?k"] by (simp add: P_def)
  have dr: "\<And>t. drop (length ?k) (p2 @ ?k @ t) = ?q @ t"
    using drop_append [of "length ?k" "p2 @ ?k"] by simp
  have dw: "\<And>t. dropWhile is_space (?q @ t) = dropWhile is_space ?q @ t"
    using in_q is_space_simps(6) by (intro dropWhile_append1) auto
  have "dropWhile is_space ?q \<noteq> []"
    using in_q is_space_simps(6) by (auto simp: dropWhile_eq_Nil_conv)
  then obtain c q' where cq: "dropWhile is_space ?q = c # q'"
    by (cases "dropWhile is_space ?q") auto
  have A: "\<And>t. dropWhile is_space (drop (length ?k) (p2 @ ?k @ t)) = c # (q' @ t)"
    by (simp only: dr dw cq append_Cons)
  have run: "rx_run (directiveRegex d) (bb, p2 @ ?k @ t, gg) = [] \<longleftrightarrow>
      \<not> (P \<and> c = 91 \<and> dropWhile (\<lambda>x. x \<noteq> 93) (q' @ t) \<noteq> [])" for t bb gg
  proof (cases "dropWhile (\<lambda>x. x \<noteq> 93) (q' @ t)")
    case Nil
    show ?thesis by (subst directive_run, simp only: tk A) (simp add: Nil)
  next
    case (Cons x xs)
    show ?thesis by (subst directive_run, simp only: tk A) (simp add: Cons)
  qed
  have "dropWhile (\<lambda>x. x \<noteq> 93) (q' @ t0) \<noteq> []"
    using t0 by (auto simp: dropWhile_eq_Nil_conv)
  with r0 have "\<not> (P \<and> c = 91)"
    unfolding run by blast
  then show ?thesis unfolding run by blast
qed

lemma updatedArray_no_bracket:
  assumes "93 \<notin> set arr" and "93 \<notin> set source"
  shows "93 \<notin> set (updatedArray arr source)"
proof -
  have "93 \<notin> set (trimEnd arr)" using assms(1) set_trimEnd [of arr] by auto
  moreover have "93 \<notin> set (trim source)" using assms(2) set_trim [of source] by auto
  ultimately show ?thesis by (simp add: updatedArray_def newSource_def js_def)
qed

lemma updatedArray_no_dollar:
  assumes "36 \<notin> set arr" and "36 \<notin> set source"
  shows "36 \<notin> set (updatedArray arr source)"
proof -
  have "36 \<notin> set (trimEnd arr)" using assms(1) set_trimEnd [of arr] by auto
  moreover have "36 \<notin> set (trim source)" using assms(2) set_trim [of source] by auto
  ultimately show ?thesis by (simp add: updatedArray_def newSource_def js_def)
qed

lemma trimEnd_updatedArray: "trimEnd (updatedArray arr source) = updatedArray arr source"
proof -
  have e: "updatedArray arr source
          = (trimEnd arr @ js '','' @ [10] @ js ''    '' @ newSource source) @ [44]"
    by (simp add: updatedArray_def js_def)
  show ?thesis unfolding e by (rule trimEnd_snoc) (rule is_space_simps(5))
qed

lemma appendSource_twice:
  assumes ex: "rx_exec (directiveRegex d) content = Some m"
    and plain: "36 \<notin> set (capture_text (m_groups m) 1)" "36 \<notin> set source" "93 \<notin> set source"
  shows "\<exists>pre ws post.
           content = pre @ directive_key d @ ws @ [91] @ capture_text (m_groups m) 1 @ [93] @ post \<and>
           appendSource content d source
             = Inr (pre @ directive_key d @ js '' ['' @ updatedArray (capture_text (m_groups m) 1) source
                      @ js '']'' @ post) \<and>
           appendSource (pre @ directive_key d @ js '' ['' @ updatedArray (capture_text (m_groups m) 1) source
                           @ js '']'' @ post) d source
             = Inr (pre @ directive_key d @ js '' ['' @ updatedArray (capture_text (m_groups m) 1) source
                      @ js '','' @ [10] @ js ''    '' @ newSource source @ js '','' @ js '']'' @ post)"
proof -
  from directive_exec_Some [OF ex]
  obtain pre ws arr post where
    h: "content = pre @ directive_key d @ ws @ [91] @ arr @ [93] @ post"
       "\<forall>c\<in>set ws. is_space c" "93 \<notin> set arr" "m_index m = length pre"
       "m_text m = directive_key d @ ws @ [91] @ arr @ [93]" "m_groups m 1 = Some arr"
       "\<forall>p1 p2. pre = p1 @ p2 \<and> p2 \<noteq> [] \<longrightarrow>
          rx_run (directiveRegex d)
            (rev p1, p2 @ directive_key d @ ws @ [91] @ arr @ [93] @ post, Map.empty) = []"
    by blast
  have cap: "capture_text (m_groups m) 1 = arr" using h(6) by (simp add: capture_text_def)
  let ?A = "updatedArray arr source"
  have ex': "rx_exec (directiveRegex d) (pre @ (directive_key d @ ws @ [91] @ arr @ [93]) @ post) = Some m"
    using ex h(1) by simp
  have one: "appendSource content d source
          = Inr (pre @ directive_key d @ js '' ['' @ ?A @ js '']'' @ post)"
    using appendSource_at [OF ex' h(4) h(5) h(6)] plain(1,2) cap h(1) by simp
  have first: "\<And>p1 p2. pre = p1 @ p2 \<Longrightarrow> p2 \<noteq> [] \<Longrightarrow>
      rx_run (directiveRegex d)
        (rev p1, p2 @ directive_key d @ [32] @ [91] @ ?A @ [93] @ post, Map.empty) = []"
  proof -
    fix p1 p2 assume a: "pre = p1 @ p2" "p2 \<noteq> []"
    with h(7) have "rx_run (directiveRegex d)
            (rev p1, p2 @ directive_key d @ (ws @ [91] @ arr @ [93] @ post), Map.empty) = []"
      by simp
    from directive_run_transfer [OF a(2) this]
    show "rx_run (directiveRegex d)
        (rev p1, p2 @ directive_key d @ [32] @ [91] @ ?A @ [93] @ post, Map.empty) = []"
      by simp
  qed
  have "appendSource (pre @ directive_key d @ [32] @ [91] @ ?A @ [93] @ post) d source
          = Inr (pre @ directive_key d @ js '' ['' @ updatedArray ?A source @ js '']'' @ post)"
    using plain cap h(3)
    by (intro appendSource_first [OF first])
       (simp_all add: is_space_simps updatedArray_no_bracket updatedArray_no_dollar)
  moreover have "updatedArray ?A source = ?A @ js '','' @ [10] @ js ''    '' @ newSource source @ js '',''"
    using trimEnd_updatedArray [of arr source] by (simp add: updatedArray_def [of ?A])
  ultimately have two:
    "appendSource (pre @ directive_key d @ js '' ['' @ ?A @ js '']'' @ post) d source
       = Inr (pre @ directive_key d @ js '' ['' @ ?A @ js '','' @ [10] @ js ''    ''
                @ newSource source @ js '','' @ js '']'' @ post)"
    by (simp add: js_def)
  show ?thesis
    apply (rule exI [of _ pre], rule exI [of _ ws], rule exI [of _ post])
    using h(1) one two cap by simp
qed

lemma show_nat_nonempty: "show_nat n \<noteq> []"
  by (subst show_nat.simps) simp

lemma backup_path_longer: "length p + 8 < length (backup_path p now)"
  using show_nat_nonempty [of now] by (cases "show_nat now") (simp_all add: backup_path_def)

lemma backup_path_neq: "backup_path p now \<noteq> p"
  using backup_path_longer [of p now] by auto

lemma possibleFiles_length: "q \<in> set possibleFiles \<Longrightarrow> 14 \<le> length q \<and> length q \<le> 15"
  by (auto simp: possibleFiles_def)

lemma backup_not_candidate:
  assumes "p \<in> set possibleFiles"
  shows "backup_path p now \<notin> set possibleFiles"
proof
  assume "backup_path p now \<in> set possibleFiles"
  then have "length (backup_path p now) \<le> 15" using possibleFiles_length by blast
  moreover have "14 \<le> length p" using assms possibleFiles_length by blast
  ultimately show False using backup_path_longer [of p now] by simp
qed

lemma backup_not_joined:
  assumes "f \<in> set possibleFiles"
  shows "backup_path (path_join r f) now \<notin> set (map (path_join r) possibleFiles)"
proof
  assume "backup_path (path_join r f) now \<in> set (map (path_join r) possibleFiles)"
  then obtain f' where f': "f' \<in> set possibleFiles" "backup_path (path_join r f) now = path_join r f'"
    by auto
  then have "length (backup_path (path_join r f) now) = length r + 1 + length f'"
    by (simp add: path_join_def)
  moreover have "length f' \<le> 15" using f'(1) possibleFiles_length by blast
  moreover have "14 \<le> length f" using assms possibleFiles_length by blast
  moreover have "length (path_join r f) = length r + 1 + length f" by (simp add: path_join_def)
  ultimately show False using backup_path_longer [of "path_join r f" now] by simp
qed

lemma find_SomeD: "find P xs = Some x \<Longrightarrow> x \<in> set xs \<and> P x"
  by (induction xs) (auto split: if_splits)

lemma findViteConfig_Some:
  "findViteConfig w = Some p \<Longrightarrow> p \<in> set possibleFiles \<and> files w p \<noteq> None"
  using find_SomeD [of "existsSync w" possibleFiles p]
  by (simp add: findViteConfig_def existsSync_def)

lemma ext_findViteConfig_Some:
  "ext_findViteConfig ws w = Some p \<Longrightarrow>
     \<exists>r f. ws = Some r \<and> f \<in> set possibleFiles \<and> p = path_join r f \<and> files w p \<noteq> None"
proof (cases ws)
  case None
  assume "ext_findViteConfig ws w = Some p"
  with None show ?thesis by (simp add: ext_findViteConfig_def)
next
  case (Some r)
  assume "ext_findViteConfig ws w = Some p"
  with Some have "find (existsSync w) (map (path_join r) possibleFiles) = Some p"
    by (simp add: ext_findViteConfig_def)
  from find_SomeD [OF this] Some show ?thesis
    by (auto simp: existsSync_def)
qed

lemma find_same:
  "(\<And>x. x \<in> set xs \<Longrightarrow> P x = Q x) \<Longrightarrow> find P xs = find Q xs"
  by (induction xs) auto

text \<open>A backup and a write of the file that was found do not change which file is found.\<close>

lemma findViteConfig_after:
  assumes "findViteConfig w = Some p"
    and "files w' = (files w)(backup_path p now \<mapsto> c, p \<mapsto> new)"
  shows "findViteConfig w' = Some p"
proof -
  have p: "p \<in> set possibleFiles" "files w p \<noteq> None"
    using findViteConfig_Some [OF assms(1)] by auto
  have "\<And>q. q \<in> set possibleFiles \<Longrightarrow> existsSync w' q = existsSync w q"
    using backup_not_candidate [OF p(1), of now] p(2)
    by (auto simp: existsSync_def assms(2))
  then have "findViteConfig w' = findViteConfig w"
    unfolding findViteConfig_def by (intro find_same) simp
  with assms(1) show ?thesis by simp
qed

lemma ext_findViteConfig_after:
  assumes "ext_findViteConfig ws w = Some p"
    and "files w' = (files w)(p \<mapsto> new) \<or> files w' = (files w)(backup_path p now \<mapsto> c, p \<mapsto> new)"
  shows "ext_findViteConfig ws w' = Some p"
proof -
  from ext_findViteConfig_Some [OF assms(1)]
  obtain r f where h: "ws = Some r" "f \<in> set possibleFiles" "p = path_join r f" "files w p \<noteq> None"
    by blast
  have ne: "\<And>x. x \<in> set possibleFiles \<Longrightarrow> backup_path p now \<noteq> path_join r x"
    using backup_not_joined [OF h(2), of r now] h(3) by auto
  have "\<And>q. q \<in> set (map (path_join r) possibleFiles) \<Longrightarrow> existsSync w' q = existsSync w q"
  proof -
    fix q assume "q \<in> set (map (path_join r) possibleFiles)"
    then obtain x where x: "x \<in> set possibleFiles" "q = path_join r x" by auto
    have "backup_path p now \<noteq> q" using ne [OF x(1)] x(2) by simp
    then show "existsSync w' q = existsSync w q"
      using assms(2) h(4) by (cases "q = p") (auto simp: existsSync_def)
  qed
  then have "find (existsSync w') (map (path_join r) possibleFiles)
               = find (existsSync w) (map (path_join r) possibleFiles)"
    by (intro find_same) simp
  with assms(1) h(1) show ?thesis by (simp add: ext_findViteConfig_def)
qed

text \<open>The patched text holds the marker.\<close>

lemma insertPolicyBlock_includes:
  assumes "js_includes template k"
  shows "js_includes (insertPolicyBlock template content) k"
proof (cases "rx_exec importRegex content")
  case None
  then show ?thesis
    using js_includes_middle [OF assms, of "[]" "[10] @ content"]
    by (simp add: insertPolicyBlock_def)
next
  case (Some m)
  then show ?thesis
    using js_includes_middle [OF assms, of "take (length (m_text m)) content @ [10]"
        "[10] @ drop (length (m_text m)) content"]
    by (simp add: insertPolicyBlock_def Let_def)
qed

lemma insertServerHeaders_includes:
  assumes "js_includes newContent k \<or> js_includes server k" and "js_includes server k"
    and "36 \<notin> set server"
  shows "js_includes (fst (insertServerHeaders server newContent)) k \<or>
         (\<not> rx_test configRegex newContent \<and> fst (insertServerHeaders server newContent) = newContent)"
proof (cases "rx_exec configRegex newContent")
  case None
  then show ?thesis by (simp add: insertServerHeaders_def rx_test_def)
next
  case (Some m)
  have plain: "36 \<notin> set (js ''export default defineConfig({'' @ server)"
    using assms(3) by (simp add: js_def)
  have "js_includes (js ''export default defineConfig({'' @ server) k"
    using assms(2) by (rule js_includes_appendI2)
  then have "js_includes (take (m_index m) newContent
               @ (js ''export default defineConfig({'' @ server)
               @ drop (m_index m + length (m_text m)) newContent) k"
    by (rule js_includes_middle)
  then show ?thesis
    using Some by (simp add: insertServerHeaders_def rx_test_def js_replace_def
                     get_substitution_plain [OF plain])
qed

lemma patched_includes:
  assumes "js_includes template k" and "js_includes server k" and "36 \<notin> set server"
  shows "js_includes (fst (insertServerHeaders server (insertPolicyBlock template content))) k"
  using insertServerHeaders_includes [of "insertPolicyBlock template content" k server]
    insertPolicyBlock_includes [OF assms(1), of content] assms(2,3)
  by auto

lemma occurrences_template:
  assumes "10 \<notin> set k" and "k \<noteq> []"
  shows "occurrences (([10] @ js_lines ls) @ rest) k
           = sum_list (map (\<lambda>l. occurrences l k) ls) + occurrences rest k"
proof -
  have "take (length k) (10 # js_lines ls @ rest) \<noteq> k"
    using assms by (cases k) auto
  then show ?thesis
    using occurrences_js_lines [OF assms, of ls rest] by simp
qed

lemma occurrences_template_alone:
  assumes "10 \<notin> set k" and "k \<noteq> []"
  shows "occurrences ([10] @ js_lines ls) k = sum_list (map (\<lambda>l. occurrences l k) ls)"
  using occurrences_template [OF assms, of ls "[]"] assms(2) by simp

lemma occurrences_after_template:
  assumes "10 \<notin> set k" and "k \<noteq> []"
  shows "occurrences (([10] @ js_lines ls) @ rest) k
           = occurrences ([10] @ js_lines ls) k + occurrences rest k"
  using occurrences_template [OF assms, of ls rest] occurrences_template [OF assms, of ls "[]"] assms(2)
  by simp

lemma marker_eval: "marker = [67, 83, 80, 95, 80, 79, 76, 73, 67, 89]"
  by (simp add: marker_def js_def)

lemma headers_key_eval:
  "headers_key = [39, 67, 111, 110, 116, 101, 110, 116, 45, 83, 101, 99, 117, 114, 105, 116, 121,
                  45, 80, 111, 108, 105, 99, 121, 39]"
  by (simp add: headers_key_def js_def)

lemma export_eval: "js ''export'' = [101, 120, 112, 111, 114, 116]"
  by (simp add: js_def)

lemma occurrences_step:
  "occurrences (c # cs) (k # ks)
     = (if c = k then (if take (length ks) cs = ks then 1 else 0) else 0) + occurrences cs (k # ks)"
  by simp

lemma occurrences_code_marker: "occurrences CSP_POLICY_CODE marker = 2"
  unfolding CSP_POLICY_CODE_def
  by (subst occurrences_template_alone)
     (simp_all add: marker_eval js_def occurrences_step del: occurrences.simps(2))

lemma occurrences_code_key: "occurrences CSP_POLICY_CODE headers_key = 0"
  unfolding CSP_POLICY_CODE_def
  by (subst occurrences_template_alone)
     (simp_all add: headers_key_eval js_def occurrences_step del: occurrences.simps(2))

lemma occurrences_code_export: "occurrences CSP_POLICY_CODE (js ''export'') = 0"
  unfolding CSP_POLICY_CODE_def export_eval
  by (subst occurrences_template_alone)
     (simp_all add: js_def occurrences_step del: occurrences.simps(2))

lemma occurrences_template_marker: "occurrences CSP_POLICY_TEMPLATE marker = 1"
  unfolding CSP_POLICY_TEMPLATE_def
  by (subst occurrences_template_alone)
     (simp_all add: marker_eval js_def occurrences_step del: occurrences.simps(2))

lemma occurrences_template_export: "occurrences CSP_POLICY_TEMPLATE (js ''export'') = 0"
  unfolding CSP_POLICY_TEMPLATE_def export_eval
  by (subst occurrences_template_alone)
     (simp_all add: js_def occurrences_step del: occurrences.simps(2))

lemma server_marker:
  "occurrences VITE_CONFIG_SERVER marker = 1" "occurrences SERVER_CONFIG marker = 1"
  by (simp_all add: VITE_CONFIG_SERVER_def SERVER_CONFIG_def js_lines_def marker_eval js_def
        occurrences_step del: occurrences.simps(2))

lemma server_plain: "36 \<notin> set VITE_CONFIG_SERVER" "36 \<notin> set SERVER_CONFIG"
  by (simp_all add: VITE_CONFIG_SERVER_def SERVER_CONFIG_def js_lines_def js_def)

lemma templates_include_marker:
  "js_includes CSP_POLICY_CODE marker" "js_includes CSP_POLICY_TEMPLATE marker"
  "js_includes VITE_CONFIG_SERVER marker" "js_includes SERVER_CONFIG marker"
  by (simp_all add: js_includes_occurrences occurrences_code_marker occurrences_template_marker
        server_marker)

lemma config_run_needs_export:
  assumes "take (length (js ''export'')) s \<noteq> js ''export''"
  shows "rx_run configRegex (b, s, g) = []"
proof -
  obtain R where R: "configRegex = Seq (lit (js ''export'')) R"
    by (simp add: configRegex_def)
  have "rx_run configRegex (b, s, g) = concat (map (rx_run R) (rx_run (lit (js ''export'')) (b, s, g)))"
    by (simp only: R rx_run.simps)
  also have "\<dots> = []" using assms by (simp only: rx_run_lit if_False list.map concat.simps)
  finally show ?thesis .
qed

lemma no_occurrence_before:
  assumes "\<not> js_includes pre k" and "pre = p1 @ p2" and "p2 \<noteq> []" and "last pre \<notin> set k"
  shows "take (length k) (p2 @ s) \<noteq> k"
proof (cases "length k \<le> length p2")
  case True
  have "take (length k) p2 \<noteq> k"
  proof
    assume "take (length k) p2 = k"
    then have "js_includes p2 k" by (rule js_includes_prefix)
    then have "js_includes (p1 @ p2) k" by (rule js_includes_appendI2)
    with assms(1,2) show False by simp
  qed
  then show ?thesis using True by simp
next
  case False
  show ?thesis
  proof
    assume e: "take (length k) (p2 @ s) = k"
    have "last p2 \<in> set (take (length k) (p2 @ s))"
      using False assms(3) by simp
    with e have "last p2 \<in> set k" by simp
    moreover have "last pre = last p2" using assms(2,3) by simp
    ultimately show False using assms(4) by simp
  qed
qed

lemma config_scan_skip:
  assumes "occurrences pre (js ''export'') = 0" and "last pre = 10"
  shows "rx_scan configRegex b (pre @ s) = rx_scan configRegex (rev pre @ b) s"
proof (rule rx_scan_skip)
  fix p1 p2 assume a: "pre = p1 @ p2" "p2 \<noteq> []"
  have "\<not> js_includes pre (js ''export'')"
    using assms(1) by (simp add: js_includes_occurrences)
  moreover have "last pre \<notin> set (js ''export'')"
    using assms(2) by (simp add: js_def)
  ultimately have "take (length (js ''export'')) (p2 @ s) \<noteq> js ''export''"
    using a by (intro no_occurrence_before)
  then show "rx_run configRegex (rev p1 @ b, p2 @ s, Map.empty) = []"
    by (rule config_run_needs_export)
qed

lemma config_exec_minimal:
  "rx_scan configRegex B minimal_config
     = Some \<lparr>m_index = length B, m_text = js ''export default defineConfig({'', m_groups = Map.empty\<rparr>"
  by (simp add: minimal_config_def js_def configRegex_def Plus_def is_space_def is_white_space_def
        is_line_terminator_def)

lemma import_none_minimal: "rx_exec importRegex minimal_config = None"
  by (simp add: rx_exec_def minimal_config_def js_def importRegex_def importStatement_def Plus_def
        Opt_def is_space_def is_white_space_def is_line_terminator_def is_quote_def)

lemma occurrences_after_code:
  "10 \<notin> set k \<Longrightarrow> k \<noteq> [] \<Longrightarrow>
     occurrences (CSP_POLICY_CODE @ rest) k = occurrences CSP_POLICY_CODE k + occurrences rest k"
  unfolding CSP_POLICY_CODE_def by (rule occurrences_after_template)

lemma occurrences_after_ext_template:
  "10 \<notin> set k \<Longrightarrow> k \<noteq> [] \<Longrightarrow>
     occurrences (CSP_POLICY_TEMPLATE @ rest) k = occurrences CSP_POLICY_TEMPLATE k + occurrences rest k"
  unfolding CSP_POLICY_TEMPLATE_def by (rule occurrences_after_template)

lemma code_ends_line: "last (CSP_POLICY_CODE @ [10]) = 10" "last (CSP_POLICY_TEMPLATE @ [10]) = 10"
  by simp_all

lemma export_plain: "10 \<notin> set (js ''export'')" "js ''export'' \<noteq> []"
  by (simp_all add: js_def)

lemma code_no_export:
  "occurrences (CSP_POLICY_CODE @ [10]) (js ''export'') = 0"
  "occurrences (CSP_POLICY_TEMPLATE @ [10]) (js ''export'') = 0"
  by (simp_all add: occurrences_after_code [OF export_plain]
        occurrences_after_ext_template [OF export_plain]
        occurrences_code_export occurrences_template_export, simp_all add: js_def)

lemma patched_minimal:
  "fst (insertServerHeaders VITE_CONFIG_SERVER (insertPolicyBlock CSP_POLICY_CODE minimal_config))
     = CSP_POLICY_CODE @ [10] @ js ''export default defineConfig({'' @ VITE_CONFIG_SERVER
         @ [10] @ js ''});''"
proof -
  let ?pre = "CSP_POLICY_CODE @ [10]"
  let ?text = "CSP_POLICY_CODE @ 10 # minimal_config"
  let ?repl = "js ''export default defineConfig({'' @ VITE_CONFIG_SERVER"
  have block: "insertPolicyBlock CSP_POLICY_CODE minimal_config = ?text"
    by (simp add: insertPolicyBlock_def import_none_minimal)
  have "rx_exec configRegex (?pre @ minimal_config) = rx_scan configRegex (rev ?pre @ []) minimal_config"
    unfolding rx_exec_def
    by (rule config_scan_skip) (simp_all add: code_no_export)
  then have ex: "rx_exec configRegex ?text
      = Some \<lparr>m_index = Suc (length CSP_POLICY_CODE),
               m_text = js ''export default defineConfig({'', m_groups = Map.empty\<rparr>"
    unfolding config_exec_minimal by simp
  have plain: "36 \<notin> set ?repl"
    using server_plain(1) by (simp add: js_def)
  have rest: "drop (length (js ''export default defineConfig({'')) minimal_config = 10 # js ''});''"
    by (simp add: minimal_config_def js_def)
  have "js_replace configRegex ?text ?repl = CSP_POLICY_CODE @ 10 # ?repl @ 10 # js ''});''"
    unfolding js_replace_def
    by (simp only: ex option.case rx_match.simps get_substitution_plain [OF plain])
       (simp add: rest)
  then show ?thesis
    by (simp add: insertServerHeaders_def rx_test_def block ex)
qed

lemma marker_plain': "10 \<notin> set marker" "marker \<noteq> []"
  by (simp_all add: marker_eval)

lemma headers_key_plain: "10 \<notin> set headers_key" "headers_key \<noteq> []"
  by (simp_all add: headers_key_eval)

lemma patched_minimal_marker:
  "occurrences (fst (insertServerHeaders VITE_CONFIG_SERVER
                  (insertPolicyBlock CSP_POLICY_CODE minimal_config))) marker = 3"
  unfolding patched_minimal occurrences_after_code [OF marker_plain'] occurrences_code_marker
  by (simp add: VITE_CONFIG_SERVER_def js_lines_def marker_eval js_def occurrences_step
        del: occurrences.simps(2))

lemma patched_minimal_key:
  "occurrences (fst (insertServerHeaders VITE_CONFIG_SERVER
                  (insertPolicyBlock CSP_POLICY_CODE minimal_config))) headers_key = 1"
  unfolding patched_minimal occurrences_after_code [OF headers_key_plain] occurrences_code_key
  by (simp add: VITE_CONFIG_SERVER_def js_lines_def headers_key_eval js_def occurrences_step
        del: occurrences.simps(2))

text \<open>
  C5 as stated fails: after both insertions the minimal configuration file holds the
  marker three times, not once.
\<close>

theorem minimal_config_marker_counterexample:
  "occurrences (fst (insertServerHeaders VITE_CONFIG_SERVER
                  (insertPolicyBlock CSP_POLICY_CODE minimal_config))) marker \<noteq> 1"
  by (simp add: patched_minimal_marker)

text \<open>
  C5, as amended. Inserting the policy block of the script and then its server headers
  into the minimal configuration file gives a text with exactly three occurrences of the
  marker \<open>CSP_POLICY\<close> (the declaration of the policy object, the comment above
  \<open>buildCSPString\<close> and the argument in the headers) and exactly one occurrence of the
  key \<open>'Content-Security-Policy'\<close>.
\<close>

theorem minimal_config_patched:
  "occurrences (fst (insertServerHeaders VITE_CONFIG_SERVER
                  (insertPolicyBlock CSP_POLICY_CODE minimal_config))) marker = 3 \<and>
   occurrences (fst (insertServerHeaders VITE_CONFIG_SERVER
                  (insertPolicyBlock CSP_POLICY_CODE minimal_config))) headers_key = 1"
  by (simp add: patched_minimal_marker patched_minimal_key)

lemma cli_addCSPConfiguration_run:
  assumes "findViteConfig w = Some p" and "files w p = Some c" and "\<not> js_includes c marker"
    and "\<not> refuses w (backup_path p now)" and "\<not> refuses w p"
  shows "cli_addCSPConfiguration now w =
     (w\<lparr>files := (files w)(backup_path p now \<mapsto> c,
                 p \<mapsto> fst (insertServerHeaders VITE_CONFIG_SERVER (insertPolicyBlock CSP_POLICY_CODE c))),
        trace := trace w @ [Copied p (backup_path p now), Wrote p]\<rparr>,
      [MsgBanner, MsgFound p, MsgBackupCreated (backup_path p now)]
        @ (if snd (insertServerHeaders VITE_CONFIG_SERVER (insertPolicyBlock CSP_POLICY_CODE c))
           then [] else [MsgManual VITE_CONFIG_SERVER])
        @ [MsgSuccess],
      Completed)"
  using assms
  by (simp add: cli_addCSPConfiguration_def readFileSync_def backupFile_def copyFileSync_def
        writeFileSync_def Let_def split_def)

lemma cli_addCSPConfiguration_patched:
  assumes "findViteConfig w = Some p" and "files w p = Some c" and "js_includes c marker"
  shows "cli_addCSPConfiguration now w = (w, [MsgBanner, MsgFound p, MsgAlreadyExists], Exit 0)"
  using assms by (simp add: cli_addCSPConfiguration_def readFileSync_def)

lemma ext_addCSPConfiguration_run:
  assumes "ext_findViteConfig ws w = Some p" and "files w p = Some c" and "\<not> js_includes c marker"
    and "autoBackup \<longrightarrow> \<not> refuses w (backup_path p now)" and "\<not> refuses w p"
  shows "ext_addCSPConfiguration ws autoBackup now w =
     (w\<lparr>files := (if autoBackup then (files w)(backup_path p now \<mapsto> c) else files w)
                 (p \<mapsto> fst (insertServerHeaders SERVER_CONFIG (insertPolicyBlock CSP_POLICY_TEMPLATE c))),
        trace := trace w @ (if autoBackup then [Copied p (backup_path p now)] else []) @ [Wrote p]\<rparr>,
      [InfoConfigurationAdded], Returned)"
  using assms
  by (simp add: ext_addCSPConfiguration_def readFileSync_def ext_backup_def copyFileSync_def
        writeFileSync_def Let_def split_def)

lemma ext_addCSPConfiguration_patched:
  assumes "ext_findViteConfig ws w = Some p" and "files w p = Some c" and "js_includes c marker"
  shows "ext_addCSPConfiguration ws autoBackup now w = (w, [WarnAlreadyExists], Returned)"
  using assms by (simp add: ext_addCSPConfiguration_def readFileSync_def)

text \<open>
  C2. When the script finds a configuration file without the marker and the file system
  takes the backup and the write, the first run writes the patched text, in which the
  marker occurs; every later run, at any time, finds the marker, reports that the
  configuration exists, ends with \<open>process.exit(0)\<close> and leaves the files and the history
  of writes as they are. The same holds for the command of the extension, whatever the
  backup setting: its later runs show the warning and return without a write.
\<close>

theorem patch_twice_is_noop:
  "(findViteConfig w = Some p \<and> files w p = Some c \<and> \<not> isAlreadyPatched c \<and>
      \<not> refuses w (backup_path p now) \<and> \<not> refuses w p \<longrightarrow>
      (\<exists>w1 msgs.
         cli_addCSPConfiguration now w = (w1, msgs, Completed) \<and>
         files w1 p = Some (fst (insertServerHeaders VITE_CONFIG_SERVER
                                   (insertPolicyBlock CSP_POLICY_CODE c))) \<and>
         isAlreadyPatched (fst (insertServerHeaders VITE_CONFIG_SERVER
                                  (insertPolicyBlock CSP_POLICY_CODE c))) \<and>
         (\<forall>now'. cli_addCSPConfiguration now' w1
                    = (w1, [MsgBanner, MsgFound p, MsgAlreadyExists], Exit 0)))) \<and>
   (ext_findViteConfig ws v = Some q \<and> files v q = Some t \<and> \<not> isAlreadyPatched t \<and>
      (autoBackup \<longrightarrow> \<not> refuses v (backup_path q at)) \<and> \<not> refuses v q \<longrightarrow>
      (\<exists>w1.
         ext_addCSPConfiguration ws autoBackup at v = (w1, [InfoConfigurationAdded], Returned) \<and>
         files w1 q = Some (fst (insertServerHeaders SERVER_CONFIG
                                   (insertPolicyBlock CSP_POLICY_TEMPLATE t))) \<and>
         isAlreadyPatched (fst (insertServerHeaders SERVER_CONFIG
                                  (insertPolicyBlock CSP_POLICY_TEMPLATE t))) \<and>
         (\<forall>now' autoBackup'. ext_addCSPConfiguration ws autoBackup' now' w1
                    = (w1, [WarnAlreadyExists], Returned))))"
proof (intro conjI impI)
  assume a: "findViteConfig w = Some p \<and> files w p = Some c \<and> \<not> isAlreadyPatched c \<and>
      \<not> refuses w (backup_path p now) \<and> \<not> refuses w p"
  let ?new = "fst (insertServerHeaders VITE_CONFIG_SERVER (insertPolicyBlock CSP_POLICY_CODE c))"
  let ?w1 = "w\<lparr>files := (files w)(backup_path p now \<mapsto> c, p \<mapsto> ?new),
               trace := trace w @ [Copied p (backup_path p now), Wrote p]\<rparr>"
  have run: "\<exists>msgs. cli_addCSPConfiguration now w = (?w1, msgs, Completed)"
    using cli_addCSPConfiguration_run [of w p c now] a by (simp add: isAlreadyPatched_def)
  have inc: "js_includes ?new marker"
    by (rule patched_includes) (simp_all add: templates_include_marker server_plain)
  have found: "findViteConfig ?w1 = Some p"
    by (rule findViteConfig_after [of w p _ now c ?new]) (use a in simp_all)
  have again: "\<forall>now'. cli_addCSPConfiguration now' ?w1
                    = (?w1, [MsgBanner, MsgFound p, MsgAlreadyExists], Exit 0)"
    using cli_addCSPConfiguration_patched [OF found _ inc] by simp
  from run obtain msgs where "cli_addCSPConfiguration now w = (?w1, msgs, Completed)" by blast
  with inc again show "\<exists>w1 msgs.
         cli_addCSPConfiguration now w = (w1, msgs, Completed) \<and>
         files w1 p = Some ?new \<and> isAlreadyPatched ?new \<and>
         (\<forall>now'. cli_addCSPConfiguration now' w1
                    = (w1, [MsgBanner, MsgFound p, MsgAlreadyExists], Exit 0))"
    by (intro exI [of _ ?w1] exI [of _ msgs]) (simp add: isAlreadyPatched_def)
next
  assume a: "ext_findViteConfig ws v = Some q \<and> files v q = Some t \<and> \<not> isAlreadyPatched t \<and>
      (autoBackup \<longrightarrow> \<not> refuses v (backup_path q at)) \<and> \<not> refuses v q"
  let ?new = "fst (insertServerHeaders SERVER_CONFIG (insertPolicyBlock CSP_POLICY_TEMPLATE t))"
  let ?w1 = "v\<lparr>files := (if autoBackup then (files v)(backup_path q at \<mapsto> t) else files v)(q \<mapsto> ?new),
        trace := trace v @ (if autoBackup then [Copied q (backup_path q at)] else []) @ [Wrote q]\<rparr>"
  have run: "ext_addCSPConfiguration ws autoBackup at v = (?w1, [InfoConfigurationAdded], Returned)"
    using ext_addCSPConfiguration_run [of ws v q t autoBackup at] a
    by (simp add: isAlreadyPatched_def)
  have inc: "js_includes ?new marker"
    by (rule patched_includes) (simp_all add: templates_include_marker server_plain)
  have found: "ext_findViteConfig ws ?w1 = Some q"
    by (rule ext_findViteConfig_after [of ws v q _ ?new at t]) (use a in auto)
  have again: "\<forall>now' autoBackup'. ext_addCSPConfiguration ws autoBackup' now' ?w1
                    = (?w1, [WarnAlreadyExists], Returned)"
    using ext_addCSPConfiguration_patched [OF found _ inc] by simp
  from run inc again show "\<exists>w1.
         ext_addCSPConfiguration ws autoBackup at v = (w1, [InfoConfigurationAdded], Returned) \<and>
         files w1 q = Some ?new \<and> isAlreadyPatched ?new \<and>
         (\<forall>now' autoBackup'. ext_addCSPConfiguration ws autoBackup' now' w1
                    = (w1, [WarnAlreadyExists], Returned))"
    by (intro exI [of _ ?w1]) (simp add: isAlreadyPatched_def)
qed

theorem patch_twice_is_noop_witness:
  "(\<exists>w1 msgs.
      cli_addCSPConfiguration 0 (world_of ''vite.config.ts'' minimal_config) = (w1, msgs, Completed) \<and>
      (\<forall>now'. cli_addCSPConfiguration now' w1
                 = (w1, [MsgBanner, MsgFound ''vite.config.ts'', MsgAlreadyExists], Exit 0))) \<and>
   (\<exists>w1.
      ext_addCSPConfiguration (Some ''/ws'') True 0 (world_of ''/ws/vite.config.ts'' minimal_config)
        = (w1, [InfoConfigurationAdded], Returned) \<and>
      (\<forall>now' autoBackup'. ext_addCSPConfiguration (Some ''/ws'') autoBackup' now' w1
                 = (w1, [WarnAlreadyExists], Returned)))"
proof -
  have fresh: "\<not> isAlreadyPatched minimal_config"
    by (simp add: isAlreadyPatched_def minimal_config_def marker_eval js_def)
  have cli: "findViteConfig (world_of ''vite.config.ts'' minimal_config) = Some ''vite.config.ts''"
    "files (world_of ''vite.config.ts'' minimal_config) ''vite.config.ts'' = Some minimal_config"
    "\<not> refuses (world_of ''vite.config.ts'' minimal_config) (backup_path ''vite.config.ts'' 0)"
    "\<not> refuses (world_of ''vite.config.ts'' minimal_config) ''vite.config.ts''"
    by (simp_all add: findViteConfig_def existsSync_def possibleFiles_def world_of_def)
  have ext: "ext_findViteConfig (Some ''/ws'') (world_of ''/ws/vite.config.ts'' minimal_config)
               = Some ''/ws/vite.config.ts''"
    "files (world_of ''/ws/vite.config.ts'' minimal_config) ''/ws/vite.config.ts'' = Some minimal_config"
    "\<not> refuses (world_of ''/ws/vite.config.ts'' minimal_config) (backup_path ''/ws/vite.config.ts'' 0)"
    "\<not> refuses (world_of ''/ws/vite.config.ts'' minimal_config) ''/ws/vite.config.ts''"
    by (simp_all add: ext_findViteConfig_def path_join_def existsSync_def possibleFiles_def world_of_def)
  show ?thesis
    using patch_twice_is_noop [of "world_of ''vite.config.ts'' minimal_config" "''vite.config.ts''"
        minimal_config 0 "Some ''/ws''" "world_of ''/ws/vite.config.ts'' minimal_config"
        "''/ws/vite.config.ts''" minimal_config True 0]
      fresh cli ext
    by blast
qed

end
